theory Spec2Isabelle
  imports Main
begin

section \<open>Python values\<close>

text \<open>
  A Python \<^verbatim>\<open>str\<close> is a sequence of Unicode code points, modelled as a list of naturals.
  String literals of the source are written \<open>str ''...''\<close>.
\<close>

type_synonym pystr = "nat list"

definition str :: "string \<Rightarrow> pystr" where
  "str s = map of_char s"

text \<open>
  What the interpreter and its Unicode tables decide, and the repository does not:
  the decimal digits and alphanumeric characters beyond ASCII (the classes \<^verbatim>\<open>\d\<close> and
  \<^verbatim>\<open>\w\<close> of \<^verbatim>\<open>re\<close> on a \<^verbatim>\<open>str\<close> pattern), and the limit on the
  number of digits \<^verbatim>\<open>int()\<close> converts (\<^verbatim>\<open>sys.get_int_max_str_digits()\<close>, 0 when
  there is none). They are parameters of the model: \<open>uni_decimal c\<close> is the digit value of
  a code point \<open>c \<ge> 128\<close> that is a decimal digit, \<open>uni_alnum c\<close> tells whether a code
  point \<open>c \<ge> 128\<close> is alphanumeric, and \<open>int_other s\<close> is what \<^verbatim>\<open>int(s)\<close> returns for
  a string that is not a run of decimal digits (\<open>None\<close> when it raises), which the lexer
  never produces.
\<close>

record interp =
  uni_decimal :: "nat \<Rightarrow> nat option"
  uni_alnum :: "nat \<Rightarrow> bool"
  int_max_str_digits :: nat
  int_other :: "nat list \<Rightarrow> int option"

text \<open>\<^verbatim>\<open>str(n)\<close> of a non-negative integer, and of any integer (as an f-string formats it).\<close>

function str_nat :: "nat \<Rightarrow> pystr" where
  "str_nat n = (if n < 10 then [48 + n] else str_nat (n div 10) @ [48 + n mod 10])"
  by pat_completeness auto
termination
  by (relation "measure id") auto

declare str_nat.simps [simp del]

definition str_int :: "int \<Rightarrow> pystr" where
  "str_int v = (if v < 0 then 45 # str_nat (nat (- v)) else str_nat (nat v))"

text \<open>\<^verbatim>\<open>sep.join(xs)\<close>.\<close>

fun join :: "pystr \<Rightarrow> pystr list \<Rightarrow> pystr" where
  "join sep [] = []"
| "join sep [x] = x"
| "join sep (x # y # ys) = x @ sep @ join sep (y # ys)"

section \<open>Tokens and syntax trees (parser.py)\<close>

text \<open>
  The token kinds: the group names of \<^verbatim>\<open>TOK\<close>, the keyword kinds of \<^verbatim>\<open>KW\<close>, and
  EOF. The kind \<^verbatim>\<open>INT\<close> is written \<open>INT'\<close>.
\<close>

datatype kind =
    INT' | ID | LE | GE | EQEQ | NE | LT | GT | EQ | SEMIC | LP | RP | LBR | RBR
  | PLUS | MINUS | MUL | DIV | WS | LET | PRINT | WHILE | IF | ELSE | EOF

datatype token = Token (tok_t: kind) (tok_v: pystr)

text \<open>
  The tagged tuples of the parser: \<^verbatim>\<open>("Int", v)\<close>, \<^verbatim>\<open>("Var", name)\<close>,
  \<^verbatim>\<open>("Bin", op, a, b)\<close>, \<^verbatim>\<open>("Cmp", op, a, b)\<close>, \<^verbatim>\<open>("Let", name, e)\<close>,
  \<^verbatim>\<open>("Print", e)\<close>, \<^verbatim>\<open>("While", cond, body)\<close>,
  \<^verbatim>\<open>("IfChain", branches, else_block)\<close> and \<^verbatim>\<open>("Program", stmts)\<close>.
  An operator is the kind of its token.
\<close>

datatype Expr =
    IntE int
  | Var pystr
  | Bin kind Expr Expr
  | Cmp kind Expr Expr

datatype Stmt =
    LetS pystr Expr
  | Print Expr
  | While Expr "Stmt list"
  | IfChain "(Expr \<times> Stmt list) list" "Stmt list option"

datatype Prog = Program "Stmt list"

text \<open>The exceptions the two modules can raise, and the exhaustion of the parser's fuel.\<close>

datatype error =
    SyntaxError_expected kind token
  | SyntaxError_bad_statement token
  | SyntaxError_bad_factor token
  | ValueError_int pystr
  | ValueError_unknown_binop kind
  | KeyError kind
  | IndexError
  | Out_of_fuel


section \<open>The lexer (parser.py)\<close>

text \<open>
  The character classes of the token patterns. On ASCII, \<^verbatim>\<open>\d\<close> is \<^verbatim>\<open>[0-9]\<close> and
  \<^verbatim>\<open>\w\<close> is \<^verbatim>\<open>[A-Za-z0-9_]\<close>; beyond, the interpreter's tables decide.
\<close>

definition decimal_value :: "interp \<Rightarrow> nat \<Rightarrow> nat option" where
  "decimal_value U c =
     (if c < 128 then (if 48 \<le> c \<and> c \<le> 57 then Some (c - 48) else None) else uni_decimal U c)"

definition is_decimal :: "interp \<Rightarrow> nat \<Rightarrow> bool" where
  "is_decimal U c = (decimal_value U c \<noteq> None)"

definition is_word :: "interp \<Rightarrow> nat \<Rightarrow> bool" where
  "is_word U c =
     (if c < 128 then (48 \<le> c \<and> c \<le> 57) \<or> (65 \<le> c \<and> c \<le> 90) \<or> (97 \<le> c \<and> c \<le> 122) \<or> c = 95
      else uni_alnum U c)"

definition is_id_start :: "nat \<Rightarrow> bool" where
  "is_id_start c = ((65 \<le> c \<and> c \<le> 90) \<or> (97 \<le> c \<and> c \<le> 122) \<or> c = 95)"

definition is_ws :: "nat \<Rightarrow> bool" where
  "is_ws c = (c = 32 \<or> c = 9 \<or> c = 13 \<or> c = 10)"

text \<open>
  A pattern is its matcher: the length of the match at the start of a string, if there is
  one. The three forms of \<^verbatim>\<open>TOK\<close>: a literal, a greedy \<^verbatim>\<open>c+\<close> over a class,
  and a character of one class followed by a greedy \<^verbatim>\<open>c*\<close> over another.
\<close>

type_synonym pattern = "pystr \<Rightarrow> nat option"

definition re_lit :: "string \<Rightarrow> pattern" where
  "re_lit l s = (if take (length l) s = str l then Some (length l) else None)"

definition re_plus :: "(nat \<Rightarrow> bool) \<Rightarrow> pattern" where
  "re_plus P s = (if takeWhile P s = [] then None else Some (length (takeWhile P s)))"

definition re_one_star :: "(nat \<Rightarrow> bool) \<Rightarrow> (nat \<Rightarrow> bool) \<Rightarrow> pattern" where
  "re_one_star P Q s =
     (case s of [] \<Rightarrow> None | c # cs \<Rightarrow> if P c then Some (1 + length (takeWhile Q cs)) else None)"

definition TOK :: "interp \<Rightarrow> (kind \<times> pattern) list" where
  "TOK U =
     [(INT', re_plus (is_decimal U)),
      (ID, re_one_star is_id_start (is_word U)),
      (LE, re_lit ''<=''),
      (GE, re_lit ''>=''),
      (EQEQ, re_lit ''==''),
      (NE, re_lit ''!=''),
      (LT, re_lit ''<''),
      (GT, re_lit ''>''),
      (EQ, re_lit ''=''),
      (SEMIC, re_lit '';''),
      (LP, re_lit ''(''),
      (RP, re_lit '')''),
      (LBR, re_lit ''{''),
      (RBR, re_lit ''}''),
      (PLUS, re_lit ''+''),
      (MINUS, re_lit ''-''),
      (MUL, re_lit ''*''),
      (DIV, re_lit ''/''),
      (WS, re_plus is_ws)]"

text \<open>
  The alternation \<^verbatim>\<open>TOKEN_REGEX\<close> at the start of a string: the first alternative
  that matches, with the name of its group and the length of the match.
\<close>

fun alternation :: "(kind \<times> pattern) list \<Rightarrow> pystr \<Rightarrow> (kind \<times> nat) option" where
  "alternation [] s = None"
| "alternation ((k, p) # ps) s = (case p s of Some n \<Rightarrow> Some (k, n) | None \<Rightarrow> alternation ps s)"

definition TOKEN_REGEX :: "interp \<Rightarrow> pystr \<Rightarrow> (kind \<times> nat) option" where
  "TOKEN_REGEX U s = alternation (TOK U) s"

lemma TOKEN_REGEX_positive:
  "TOKEN_REGEX U s = Some (k, n) \<Longrightarrow> 0 < n"
  by (auto simp: TOKEN_REGEX_def TOK_def re_lit_def re_plus_def re_one_star_def
           split: option.splits if_splits list.splits)

text \<open>
  \<^verbatim>\<open>TOKEN_REGEX.finditer(s)\<close>: the matches from left to right, as (group, text); where no
  alternative matches, the scan moves on by one character.
\<close>

function finditer :: "interp \<Rightarrow> pystr \<Rightarrow> (kind \<times> pystr) list" where
  "finditer U [] = []"
| "finditer U (c # cs) =
     (case TOKEN_REGEX U (c # cs) of
        None \<Rightarrow> finditer U cs
      | Some (k, n) \<Rightarrow> (k, take n (c # cs)) # finditer U (drop n (c # cs)))"
  by pat_completeness auto
termination
  by (relation "measure (\<lambda>(U, s). length s)") (auto dest: TOKEN_REGEX_positive)

definition KW :: "pystr \<rightharpoonup> kind" where
  "KW = map_of [(str ''let'', LET), (str ''print'', PRINT), (str ''while'', WHILE),
                (str ''if'', IF), (str ''else'', ELSE)]"

text \<open>The body of the loop of \<^verbatim>\<open>lex\<close>, over the matches.\<close>

fun lex_out :: "(kind \<times> pystr) list \<Rightarrow> token list" where
  "lex_out [] = []"
| "lex_out ((t, v) # ms) =
     (if t = WS then lex_out ms
      else (case (if t = ID then KW v else None) of
              Some kw \<Rightarrow> Token kw v # lex_out ms
            | None \<Rightarrow> Token t v # lex_out ms))"

definition lex :: "interp \<Rightarrow> pystr \<Rightarrow> token list" where
  "lex U s = lex_out (finditer U s) @ [Token EOF []]"

text \<open>
  A character that no rule can match or continue: not a digit, not a word character,
  not white space, and none of the characters of the operators and punctuation.
\<close>

definition unmatched :: "interp \<Rightarrow> nat \<Rightarrow> bool" where
  "unmatched U c =
     (\<not> is_decimal U c \<and> \<not> is_id_start c \<and> \<not> is_word U c \<and> \<not> is_ws c
      \<and> c \<notin> set (str ''<>=!;(){}+-*/''))"

section \<open>The parser (parser.py)\<close>

text \<open>
  \<^verbatim>\<open>int(v)\<close> on the text of a token: a run of decimal digits is its value in base 10,
  unless it has more digits than the interpreter converts.
\<close>

fun digits_value :: "interp \<Rightarrow> pystr \<Rightarrow> nat \<Rightarrow> nat option" where
  "digits_value U [] acc = Some acc"
| "digits_value U (c # cs) acc =
     (case decimal_value U c of None \<Rightarrow> None | Some d \<Rightarrow> digits_value U cs (10 * acc + d))"

definition py_int :: "interp \<Rightarrow> pystr \<Rightarrow> error + int" where
  "py_int U s =
     (case (if s = [] then None else digits_value U s 0) of
        Some n \<Rightarrow>
          if int_max_str_digits U \<noteq> 0 \<and> int_max_str_digits U < length s then Inl (ValueError_int s)
          else Inr (int n)
      | None \<Rightarrow> (case int_other U s of None \<Rightarrow> Inl (ValueError_int s) | Some n \<Rightarrow> Inr n))"

text \<open>
  A method of \<^verbatim>\<open>Parser\<close> reads the tokens \<open>toks\<close> from the position \<open>i\<close>; it returns
  a value and the new position, or raises at a position. The recursion of the methods is
  bounded by fuel, of which \<open>parse\<close> provides enough.
\<close>

datatype 'a result = Raise error nat | Return 'a nat

definition cur :: "token list \<Rightarrow> nat \<Rightarrow> error + token" where
  "cur toks i = (if i < length toks then Inr (toks ! i) else Inl IndexError)"

definition eat :: "kind \<Rightarrow> token list \<Rightarrow> nat \<Rightarrow> unit result" where
  "eat kind toks i =
     (case cur toks i of
        Inl e \<Rightarrow> Raise e i
      | Inr tok \<Rightarrow>
          if tok_t tok \<noteq> kind then Raise (SyntaxError_expected kind tok) i
          else Return () (i + 1))"

text \<open>
  Sequencing: \<open>bind m f\<close> runs \<open>f\<close> on the value and position that \<open>m\<close> returns, and
  raises what \<open>m\<close> raises; \<open>with_cur toks i f\<close> runs \<open>f\<close> on \<^verbatim>\<open>self.cur()\<close>, which
  raises when the position is out of range.
\<close>

definition bind :: "'a result \<Rightarrow> ('a \<Rightarrow> nat \<Rightarrow> 'b result) \<Rightarrow> 'b result" where
  "bind m f = (case m of Raise e j \<Rightarrow> Raise e j | Return x j \<Rightarrow> f x j)"

definition with_cur :: "token list \<Rightarrow> nat \<Rightarrow> (token \<Rightarrow> 'b result) \<Rightarrow> 'b result" where
  "with_cur toks i f = (case cur toks i of Inl e \<Rightarrow> Raise e i | Inr tok \<Rightarrow> f tok)"

text \<open>The congruence rules tell the definitions below where a call is made.\<close>

lemma bind_cong [fundef_cong]:
  "m = m' \<Longrightarrow> (\<And>x j. m' = Return x j \<Longrightarrow> f x j = f' x j) \<Longrightarrow> bind m f = bind m' f'"
  by (auto simp: bind_def split: result.splits)

lemma with_cur_cong [fundef_cong]:
  "toks = toks' \<Longrightarrow> i = i' \<Longrightarrow> (\<And>tok. cur toks' i' = Inr tok \<Longrightarrow> f tok = f' tok)
     \<Longrightarrow> with_cur toks i f = with_cur toks' i' f'"
  by (auto simp: with_cur_def split: sum.splits)

function expr :: "nat \<Rightarrow> interp \<Rightarrow> token list \<Rightarrow> nat \<Rightarrow> Expr result"
  and equality :: "nat \<Rightarrow> interp \<Rightarrow> token list \<Rightarrow> nat \<Rightarrow> Expr result"
  and equality_loop :: "nat \<Rightarrow> interp \<Rightarrow> token list \<Rightarrow> nat \<Rightarrow> Expr \<Rightarrow> Expr result"
  and relational :: "nat \<Rightarrow> interp \<Rightarrow> token list \<Rightarrow> nat \<Rightarrow> Expr result"
  and relational_loop :: "nat \<Rightarrow> interp \<Rightarrow> token list \<Rightarrow> nat \<Rightarrow> Expr \<Rightarrow> Expr result"
  and additive :: "nat \<Rightarrow> interp \<Rightarrow> token list \<Rightarrow> nat \<Rightarrow> Expr result"
  and additive_loop :: "nat \<Rightarrow> interp \<Rightarrow> token list \<Rightarrow> nat \<Rightarrow> Expr \<Rightarrow> Expr result"
  and "term" :: "nat \<Rightarrow> interp \<Rightarrow> token list \<Rightarrow> nat \<Rightarrow> Expr result"
  and term_loop :: "nat \<Rightarrow> interp \<Rightarrow> token list \<Rightarrow> nat \<Rightarrow> Expr \<Rightarrow> Expr result"
  and factor :: "nat \<Rightarrow> interp \<Rightarrow> token list \<Rightarrow> nat \<Rightarrow> Expr result"
where
  "expr 0 U toks i = Raise Out_of_fuel i"
| "expr (Suc n) U toks i = equality n U toks i"
| "equality 0 U toks i = Raise Out_of_fuel i"
| "equality (Suc n) U toks i =
     bind (relational n U toks i) (\<lambda>node j. equality_loop n U toks j node)"
| "equality_loop 0 U toks i node = Raise Out_of_fuel i"
| "equality_loop (Suc n) U toks i node =
     with_cur toks i (\<lambda>tok.
       if tok_t tok = EQEQ \<or> tok_t tok = NE then
         bind (relational n U toks (i + 1)) (\<lambda>rhs j.
           equality_loop n U toks j (Cmp (tok_t tok) node rhs))
       else Return node i)"
| "relational 0 U toks i = Raise Out_of_fuel i"
| "relational (Suc n) U toks i =
     bind (additive n U toks i) (\<lambda>node j. relational_loop n U toks j node)"
| "relational_loop 0 U toks i node = Raise Out_of_fuel i"
| "relational_loop (Suc n) U toks i node =
     with_cur toks i (\<lambda>tok.
       if tok_t tok = LT \<or> tok_t tok = GT \<or> tok_t tok = LE \<or> tok_t tok = GE then
         bind (additive n U toks (i + 1)) (\<lambda>rhs j.
           relational_loop n U toks j (Cmp (tok_t tok) node rhs))
       else Return node i)"
| "additive 0 U toks i = Raise Out_of_fuel i"
| "additive (Suc n) U toks i =
     bind (term n U toks i) (\<lambda>node j. additive_loop n U toks j node)"
| "additive_loop 0 U toks i node = Raise Out_of_fuel i"
| "additive_loop (Suc n) U toks i node =
     with_cur toks i (\<lambda>tok.
       if tok_t tok = PLUS \<or> tok_t tok = MINUS then
         bind (term n U toks (i + 1)) (\<lambda>rhs j.
           additive_loop n U toks j (Bin (tok_t tok) node rhs))
       else Return node i)"
| "term 0 U toks i = Raise Out_of_fuel i"
| "term (Suc n) U toks i =
     bind (factor n U toks i) (\<lambda>node j. term_loop n U toks j node)"
| "term_loop 0 U toks i node = Raise Out_of_fuel i"
| "term_loop (Suc n) U toks i node =
     with_cur toks i (\<lambda>tok.
       if tok_t tok = MUL \<or> tok_t tok = DIV then
         bind (factor n U toks (i + 1)) (\<lambda>rhs j.
           term_loop n U toks j (Bin (tok_t tok) node rhs))
       else Return node i)"
| "factor 0 U toks i = Raise Out_of_fuel i"
| "factor (Suc n) U toks i =
     with_cur toks i (\<lambda>tok.
       if tok_t tok = INT' then
         (case py_int U (tok_v tok) of
            Inl e \<Rightarrow> Raise e i
          | Inr v \<Rightarrow> bind (eat INT' toks i) (\<lambda>_ j. Return (IntE v) j))
       else if tok_t tok = ID then
         bind (eat ID toks i) (\<lambda>_ j. Return (Var (tok_v tok)) j)
       else if tok_t tok = LP then
         bind (eat LP toks i) (\<lambda>_ j.
         bind (expr n U toks j) (\<lambda>e k.
         bind (eat RP toks k) (\<lambda>_ l. Return e l)))
       else Raise (SyntaxError_bad_factor tok) i)"
  by pat_completeness auto
termination
  by (relation "measure (case_sum
        (case_sum (case_sum fst fst) (case_sum fst (case_sum fst fst)))
        (case_sum (case_sum fst fst) (case_sum fst (case_sum fst fst))))") auto

text \<open>
  The statements. \<open>block_loop\<close>, \<open>if_loop\<close> and \<open>program_loop\<close> are the
  \<^verbatim>\<open>while\<close> loops of \<^verbatim>\<open>block\<close>, \<^verbatim>\<open>if_stmt\<close> and \<^verbatim>\<open>program\<close>, with the
  list they append to.
\<close>

function stmt :: "nat \<Rightarrow> interp \<Rightarrow> token list \<Rightarrow> nat \<Rightarrow> Stmt result"
  and if_stmt :: "nat \<Rightarrow> interp \<Rightarrow> token list \<Rightarrow> nat \<Rightarrow> Stmt result"
  and if_loop :: "nat \<Rightarrow> interp \<Rightarrow> token list \<Rightarrow> nat \<Rightarrow> (Expr \<times> Stmt list) list \<Rightarrow> Stmt result"
  and block :: "nat \<Rightarrow> interp \<Rightarrow> token list \<Rightarrow> nat \<Rightarrow> Stmt list result"
  and block_loop :: "nat \<Rightarrow> interp \<Rightarrow> token list \<Rightarrow> nat \<Rightarrow> Stmt list \<Rightarrow> Stmt list result"
where
  "stmt 0 U toks i = Raise Out_of_fuel i"
| "stmt (Suc n) U toks i =
     with_cur toks i (\<lambda>tok.
       if tok_t tok = LET then
         bind (eat LET toks i) (\<lambda>_ j.
         with_cur toks j (\<lambda>name.
         bind (eat ID toks j) (\<lambda>_ k.
         bind (eat EQ toks k) (\<lambda>_ l.
         bind (expr n U toks l) (\<lambda>e m.
         bind (eat SEMIC toks m) (\<lambda>_ p. Return (LetS (tok_v name) e) p))))))
       else if tok_t tok = PRINT then
         bind (eat PRINT toks i) (\<lambda>_ j.
         bind (expr n U toks j) (\<lambda>e k.
         bind (eat SEMIC toks k) (\<lambda>_ l. Return (Print e) l)))
       else if tok_t tok = WHILE then
         bind (eat WHILE toks i) (\<lambda>_ j.
         bind (eat LP toks j) (\<lambda>_ k.
         bind (expr n U toks k) (\<lambda>cond l.
         bind (eat RP toks l) (\<lambda>_ m.
         bind (block n U toks m) (\<lambda>body p. Return (While cond body) p)))))
       else if tok_t tok = IF then if_stmt n U toks i
       else Raise (SyntaxError_bad_statement tok) i)"
| "if_stmt 0 U toks i = Raise Out_of_fuel i"
| "if_stmt (Suc n) U toks i =
     bind (eat IF toks i) (\<lambda>_ j.
     bind (eat LP toks j) (\<lambda>_ k.
     bind (expr n U toks k) (\<lambda>c0 l.
     bind (eat RP toks l) (\<lambda>_ m.
     bind (block n U toks m) (\<lambda>b0 p. if_loop n U toks p [(c0, b0)])))))"
| "if_loop 0 U toks i branches = Raise Out_of_fuel i"
| "if_loop (Suc n) U toks i branches =
     with_cur toks i (\<lambda>tok.
       if tok_t tok = ELSE then
         bind (eat ELSE toks i) (\<lambda>_ j.
         with_cur toks j (\<lambda>tok'.
           if tok_t tok' = IF then
             bind (eat IF toks j) (\<lambda>_ k.
             bind (eat LP toks k) (\<lambda>_ l.
             bind (expr n U toks l) (\<lambda>c m.
             bind (eat RP toks m) (\<lambda>_ p.
             bind (block n U toks p) (\<lambda>b q. if_loop n U toks q (branches @ [(c, b)]))))))
           else
             bind (block n U toks j) (\<lambda>else_block k.
               Return (IfChain branches (Some else_block)) k)))
       else Return (IfChain branches None) i)"
| "block 0 U toks i = Raise Out_of_fuel i"
| "block (Suc n) U toks i = bind (eat LBR toks i) (\<lambda>_ j. block_loop n U toks j [])"
| "block_loop 0 U toks i body = Raise Out_of_fuel i"
| "block_loop (Suc n) U toks i body =
     with_cur toks i (\<lambda>tok.
       if tok_t tok \<noteq> RBR then
         bind (stmt n U toks i) (\<lambda>s j. block_loop n U toks j (body @ [s]))
       else bind (eat RBR toks i) (\<lambda>_ j. Return body j))"
  by pat_completeness auto
termination
  by (relation "measure (case_sum (case_sum fst fst) (case_sum fst (case_sum fst fst)))") auto

fun program_loop :: "nat \<Rightarrow> interp \<Rightarrow> token list \<Rightarrow> nat \<Rightarrow> Stmt list \<Rightarrow> Prog result" where
  "program_loop 0 U toks i stmts = Raise Out_of_fuel i"
| "program_loop (Suc n) U toks i stmts =
     with_cur toks i (\<lambda>tok.
       if tok_t tok \<noteq> EOF then
         bind (stmt n U toks i) (\<lambda>s j. program_loop n U toks j (stmts @ [s]))
       else Return (Program stmts) i)"

definition program :: "nat \<Rightarrow> interp \<Rightarrow> token list \<Rightarrow> nat \<Rightarrow> Prog result" where
  "program n U toks i = program_loop n U toks i []"

text \<open>The fuel that \<open>parse\<close> gives to the methods for a token list.\<close>

definition fuel :: "token list \<Rightarrow> nat" where
  "fuel toks = 16 * length toks + 16"

definition parse :: "interp \<Rightarrow> pystr \<Rightarrow> Prog result" where
  "parse U src = program (fuel (lex U src)) U (lex U src) 0"

section \<open>The code generator (j-=2.py)\<close>

record codegen =
  locals :: "pystr \<rightharpoonup> nat"
  next_slot :: nat
  lines :: "pystr list"
  max_stack_guess :: nat
  lbl :: nat

definition Codegen :: codegen where
  "Codegen = \<lparr>locals = Map.empty, next_slot = 1, lines = [], max_stack_guess = 32, lbl = 0\<rparr>"

definition new_label :: "pystr \<Rightarrow> codegen \<Rightarrow> pystr \<times> codegen" where
  "new_label base g = (let g' = g\<lparr>lbl := lbl g + 1\<rparr> in (base @ str_nat (lbl g'), g'))"

definition slot_of :: "pystr \<Rightarrow> codegen \<Rightarrow> nat \<times> codegen" where
  "slot_of name g =
     (case locals g name of
        None \<Rightarrow> (next_slot g, g\<lparr>locals := (locals g)(name \<mapsto> next_slot g), next_slot := next_slot g + 1\<rparr>)
      | Some slot \<Rightarrow> (slot, g))"

definition emit :: "pystr \<Rightarrow> codegen \<Rightarrow> codegen" where
  "emit s g = g\<lparr>lines := lines g @ [s]\<rparr>"

definition emit_iload :: "nat \<Rightarrow> codegen \<Rightarrow> codegen" where
  "emit_iload slot g =
     emit (if 0 \<le> slot \<and> slot \<le> 3 then str ''  iload_'' @ str_nat slot
           else str ''  iload '' @ str_nat slot) g"

definition emit_istore :: "nat \<Rightarrow> codegen \<Rightarrow> codegen" where
  "emit_istore slot g =
     emit (if 0 \<le> slot \<and> slot \<le> 3 then str ''  istore_'' @ str_nat slot
           else str ''  istore '' @ str_nat slot) g"

text \<open>The dictionary \<^verbatim>\<open>jmp\<close> of the \<^verbatim>\<open>Cmp\<close> case.\<close>

fun jmp :: "kind \<Rightarrow> pystr option" where
  "jmp LT = Some (str ''if_icmplt'')"
| "jmp LE = Some (str ''if_icmple'')"
| "jmp GT = Some (str ''if_icmpgt'')"
| "jmp GE = Some (str ''if_icmpge'')"
| "jmp EQEQ = Some (str ''if_icmpeq'')"
| "jmp NE = Some (str ''if_icmpne'')"
| "jmp _ = None"

fun gen_expr :: "Expr \<Rightarrow> codegen \<Rightarrow> error + codegen" where
  "gen_expr (IntE n) g = Inr (emit (str ''  sipush '' @ str_int n) g)"
| "gen_expr (Var name) g = (case slot_of name g of (slot, g1) \<Rightarrow> Inr (emit_iload slot g1))"
| "gen_expr (Bin op a b) g =
     (case gen_expr a g of Inl e \<Rightarrow> Inl e | Inr g1 \<Rightarrow>
     (case gen_expr b g1 of Inl e \<Rightarrow> Inl e | Inr g2 \<Rightarrow>
        if op = PLUS then Inr (emit (str ''  iadd'') g2)
        else if op = MINUS then Inr (emit (str ''  isub'') g2)
        else if op = MUL then Inr (emit (str ''  imul'') g2)
        else if op = DIV then Inr (emit (str ''  idiv'') g2)
        else Inl (ValueError_unknown_binop op)))"
| "gen_expr (Cmp op a b) g =
     (case gen_expr a g of Inl e \<Rightarrow> Inl e | Inr g1 \<Rightarrow>
     (case gen_expr b g1 of Inl e \<Rightarrow> Inl e | Inr g2 \<Rightarrow>
     (case new_label (str ''Cmp_true_'') g2 of (Ltrue, g3) \<Rightarrow>
     (case new_label (str ''Cmp_end_'') g3 of (Lend, g4) \<Rightarrow>
     (case jmp op of None \<Rightarrow> Inl (KeyError op) | Some j \<Rightarrow>
        Inr (emit (Lend @ str '':'')
            (emit (str ''  iconst_1'')
            (emit (Ltrue @ str '':'')
            (emit (str ''  goto '' @ Lend)
            (emit (str ''  iconst_0'')
            (emit (str ''  '' @ j @ str '' '' @ Ltrue) g4)))))))))))"

text \<open>
  \<open>gen_stmts\<close> is a loop \<^verbatim>\<open>for s in body: self.gen_stmt(s)\<close>; \<open>gen_branches\<close> is the
  loop over the branches \<open>(cond, blk)\<close> of an \<^verbatim>\<open>IfChain\<close>, of which \<open>Lend\<close> is the
  shared label.
\<close>

fun gen_stmt :: "Stmt \<Rightarrow> codegen \<Rightarrow> error + codegen"
  and gen_stmts :: "Stmt list \<Rightarrow> codegen \<Rightarrow> error + codegen"
  and gen_branches :: "pystr \<Rightarrow> (Expr \<times> Stmt list) list \<Rightarrow> codegen \<Rightarrow> error + codegen"
where
  "gen_stmt (LetS name e) g =
     (case gen_expr e g of Inl err \<Rightarrow> Inl err | Inr g1 \<Rightarrow>
     (case slot_of name g1 of (slot, g2) \<Rightarrow> Inr (emit_istore slot g2)))"
| "gen_stmt (Print e) g =
     (case gen_expr e (emit (str ''  getstatic java/lang/System/out Ljava/io/PrintStream;'') g) of
        Inl err \<Rightarrow> Inl err
      | Inr g1 \<Rightarrow> Inr (emit (str ''  invokevirtual java/io/PrintStream/println(I)V'') g1))"
| "gen_stmt (While cond body) g =
     (case new_label (str ''Loop_test_'') g of (Ltest, g1) \<Rightarrow>
     (case new_label (str ''Loop_end_'') g1 of (Lend, g2) \<Rightarrow>
     (case gen_expr cond (emit (Ltest @ str '':'') g2) of Inl err \<Rightarrow> Inl err | Inr g3 \<Rightarrow>
     (case gen_stmts body (emit (str ''  ifeq '' @ Lend) g3) of Inl err \<Rightarrow> Inl err | Inr g4 \<Rightarrow>
        Inr (emit (Lend @ str '':'') (emit (str ''  goto '' @ Ltest) g4))))))"
| "gen_stmt (IfChain branches else_block) g =
     (case new_label (str ''If_end_'') g of (Lend, g1) \<Rightarrow>
     (case gen_branches Lend branches g1 of Inl err \<Rightarrow> Inl err | Inr g2 \<Rightarrow>
     (case (case else_block of None \<Rightarrow> Inr g2 | Some ss \<Rightarrow> gen_stmts ss g2) of
        Inl err \<Rightarrow> Inl err
      | Inr g3 \<Rightarrow> Inr (emit (Lend @ str '':'') g3))))"
| "gen_stmts [] g = Inr g"
| "gen_stmts (s # ss) g =
     (case gen_stmt s g of Inl err \<Rightarrow> Inl err | Inr g1 \<Rightarrow> gen_stmts ss g1)"
| "gen_branches Lend [] g = Inr g"
| "gen_branches Lend ((cond, blk) # bs) g =
     (case new_label (str ''If_next_'') g of (Lnext, g1) \<Rightarrow>
     (case gen_expr cond g1 of Inl err \<Rightarrow> Inl err | Inr g2 \<Rightarrow>
     (case gen_stmts blk (emit (str ''  ifeq '' @ Lnext) g2) of Inl err \<Rightarrow> Inl err | Inr g3 \<Rightarrow>
        gen_branches Lend bs (emit (Lnext @ str '':'') (emit (str ''  goto '' @ Lend) g3)))))"

text \<open>\<^verbatim>\<open>gen\<close> returns the text and leaves the generator in its final state.\<close>

definition header :: "pystr \<Rightarrow> codegen \<Rightarrow> pystr list" where
  "header class_name g =
     [str ''.class public '' @ class_name,
      str ''.super java/lang/Object'',
      [],
      str ''.method public <init>()V'',
      str ''  aload_0'',
      str ''  invokespecial java/lang/Object/<init>()V'',
      str ''  return'',
      str ''.end method'',
      [],
      str ''.method public static main([Ljava/lang/String;)V'',
      str ''  .limit stack '' @ str_nat (max_stack_guess g),
      str ''  .limit locals 64'']"

definition gen :: "Prog \<Rightarrow> pystr \<Rightarrow> codegen \<Rightarrow> error + (pystr \<times> codegen)" where
  "gen ast class_name g =
     (case ast of Program stmts \<Rightarrow>
     (case gen_stmts stmts (g\<lparr>lines := lines g @ header class_name g\<rparr>) of
        Inl err \<Rightarrow> Inl err
      | Inr g1 \<Rightarrow>
          (let g2 = emit (str ''.end method'') (emit (str ''  return'') g1)
           in Inr (join [10] (lines g2), g2))))"

section \<open>The pipeline (j-=2.py)\<close>

definition compile_to_jasmin :: "interp \<Rightarrow> pystr \<Rightarrow> pystr \<Rightarrow> error + pystr" where
  "compile_to_jasmin U src class_name =
     (case parse U src of
        Raise e i \<Rightarrow> Inl e
      | Return ast i \<Rightarrow>
          (case gen ast class_name Codegen of
             Inl e \<Rightarrow> Inl e
           | Inr (text, g) \<Rightarrow> Inr text))"

text \<open>The lines a call appends to the output (none when it raises).\<close>

definition code_expr :: "Expr \<Rightarrow> codegen \<Rightarrow> pystr list" where
  "code_expr e g = (case gen_expr e g of Inl _ \<Rightarrow> [] | Inr g' \<Rightarrow> drop (length (lines g)) (lines g'))"

definition code_stmt :: "Stmt \<Rightarrow> codegen \<Rightarrow> pystr list" where
  "code_stmt s g = (case gen_stmt s g of Inl _ \<Rightarrow> [] | Inr g' \<Rightarrow> drop (length (lines g)) (lines g'))"

definition code_stmts :: "Stmt list \<Rightarrow> codegen \<Rightarrow> pystr list" where
  "code_stmts ss g = (case gen_stmts ss g of Inl _ \<Rightarrow> [] | Inr g' \<Rightarrow> drop (length (lines g)) (lines g'))"


definition code_branches :: "pystr \<Rightarrow> (Expr \<times> Stmt list) list \<Rightarrow> codegen \<Rightarrow> pystr list" where
  "code_branches Lend bs g =
     (case gen_branches Lend bs g of Inl _ \<Rightarrow> [] | Inr g' \<Rightarrow> drop (length (lines g)) (lines g'))"

subsection \<open>First-reference order\<close>

text \<open>
  The variable names of a tree in the order of the depth-first, left-to-right traversal
  (the target of a \<^verbatim>\<open>Let\<close> after its value), written from the specification's
  words, to state where the generator's slots come from.
\<close>

fun names_expr :: "Expr \<Rightarrow> pystr list" where
  "names_expr (IntE n) = []"
| "names_expr (Var name) = [name]"
| "names_expr (Bin op a b) = names_expr a @ names_expr b"
| "names_expr (Cmp op a b) = names_expr a @ names_expr b"

fun names_stmt :: "Stmt \<Rightarrow> pystr list"
  and names_stmts :: "Stmt list \<Rightarrow> pystr list"
  and names_branches :: "(Expr \<times> Stmt list) list \<Rightarrow> pystr list"
where
  "names_stmt (LetS name e) = names_expr e @ [name]"
| "names_stmt (Print e) = names_expr e"
| "names_stmt (While cond body) = names_expr cond @ names_stmts body"
| "names_stmt (IfChain branches else_block) =
     names_branches branches @ (case else_block of None \<Rightarrow> [] | Some ss \<Rightarrow> names_stmts ss)"
| "names_stmts [] = []"
| "names_stmts (s # ss) = names_stmt s @ names_stmts ss"
| "names_branches [] = []"
| "names_branches ((cond, blk) # bs) = names_expr cond @ names_stmts blk @ names_branches bs"

text \<open>The distinct elements of a list, each at its first occurrence.\<close>

fun first_refs :: "'a list \<Rightarrow> 'a list" where
  "first_refs [] = []"
| "first_refs (x # xs) = x # filter (\<lambda>y. y \<noteq> x) (first_refs xs)"

text \<open>The generator after the calls \<^verbatim>\<open>slot_of(x)\<close> for the names of a list, in order.\<close>

definition slots_after :: "pystr list \<Rightarrow> codegen \<Rightarrow> codegen" where
  "slots_after xs g = fold (\<lambda>x g. snd (slot_of x g)) xs g"

text \<open>Two generators with the same symbol table.\<close>

definition same_slots :: "codegen \<Rightarrow> codegen \<Rightarrow> bool" where
  "same_slots g g' \<longleftrightarrow> locals g = locals g' \<and> next_slot g = next_slot g'"


subsection \<open>Chains of operators\<close>

text \<open>
  The repetition \<^verbatim>\<open>( op Operand )*\<close> of a grammar rule, read from the tokens with no
  tree built: the operators with their right operands, in order. It follows the grammar of
  the specification; \<open>sub\<close> parses an operand and \<open>ops\<close> tells the operators of the level.
\<close>

fun chain :: "nat \<Rightarrow> (nat \<Rightarrow> token list \<Rightarrow> nat \<Rightarrow> Expr result) \<Rightarrow> (kind \<Rightarrow> bool) \<Rightarrow> token list \<Rightarrow> nat
    \<Rightarrow> (kind \<times> Expr) list result" where
  "chain 0 sub ops toks i = Raise Out_of_fuel i"
| "chain (Suc n) sub ops toks i =
     with_cur toks i (\<lambda>tok.
       if ops (tok_t tok) then
         bind (sub n toks (i + 1)) (\<lambda>rhs j.
         bind (chain n sub ops toks j) (\<lambda>rest k. Return ((tok_t tok, rhs) # rest) k))
       else Return [] i)"

text \<open>The left-leaning tree over a first operand and a chain.\<close>

definition fold_left :: "(kind \<Rightarrow> Expr \<Rightarrow> Expr \<Rightarrow> Expr) \<Rightarrow> Expr \<Rightarrow> (kind \<times> Expr) list \<Rightarrow> Expr" where
  "fold_left mk first rest = foldl (\<lambda>a (op, b). mk op a b) first rest"

subsection \<open>An interpreter for the examples\<close>

text \<open>
  An interpreter that knows no digit or letter beyond ASCII, converts no other string to an
  integer, and has the limit of 4300 digits: the concrete parameter of the closed examples.
\<close>

definition ascii_interp :: interp where
  "ascii_interp = \<lparr>uni_decimal = (\<lambda>c. None), uni_alnum = (\<lambda>c. False),
                    int_max_str_digits = 4300, int_other = (\<lambda>s. None)\<rparr>"

subsection \<open>Positions\<close>

text \<open>The position of the parser when a method returns or raises.\<close>

fun pos :: "'a result \<Rightarrow> nat" where
  "pos (Raise e j) = j"
| "pos (Return x j) = j"

subsection \<open>Labels in the emitted text\<close>

text \<open>
  In the assembly text a label is defined by a line that is neither indented nor a
  directive and ends with a colon; its number is the decimal number before the colon.
\<close>

definition label_line :: "pystr \<Rightarrow> bool" where
  "label_line l = (l \<noteq> [] \<and> hd l \<noteq> 32 \<and> hd l \<noteq> 46 \<and> last l = 58)"

definition is_digit :: "nat \<Rightarrow> bool" where
  "is_digit c = (48 \<le> c \<and> c \<le> 57)"

definition nat_of_digits :: "pystr \<Rightarrow> nat" where
  "nat_of_digits ds = foldl (\<lambda>a d. 10 * a + (d - 48)) 0 ds"

definition label_number :: "pystr \<Rightarrow> nat" where
  "label_number l = nat_of_digits (rev (takeWhile is_digit (rev (butlast l))))"

definition label_numbers :: "pystr list \<Rightarrow> nat list" where
  "label_numbers ls = map label_number (filter label_line ls)"

text \<open>The number of labels that the specification gives to a tree: two for each
  comparison and each loop, one for each chain and one for each of its branches.\<close>

fun labels_expr :: "Expr \<Rightarrow> nat" where
  "labels_expr (IntE n) = 0"
| "labels_expr (Var name) = 0"
| "labels_expr (Bin op a b) = labels_expr a + labels_expr b"
| "labels_expr (Cmp op a b) = labels_expr a + labels_expr b + 2"

fun labels_stmt :: "Stmt \<Rightarrow> nat"
  and labels_stmts :: "Stmt list \<Rightarrow> nat"
  and labels_branches :: "(Expr \<times> Stmt list) list \<Rightarrow> nat"
where
  "labels_stmt (LetS name e) = labels_expr e"
| "labels_stmt (Print e) = labels_expr e"
| "labels_stmt (While cond body) = 2 + labels_expr cond + labels_stmts body"
| "labels_stmt (IfChain branches else_block) =
     1 + labels_branches branches + (case else_block of None \<Rightarrow> 0 | Some ss \<Rightarrow> labels_stmts ss)"
| "labels_stmts [] = 0"
| "labels_stmts (s # ss) = labels_stmt s + labels_stmts ss"
| "labels_branches [] = 0"
| "labels_branches ((cond, blk) # bs) = 1 + labels_expr cond + labels_stmts blk + labels_branches bs"

text \<open>
  The comparison that an operator of the language denotes, and the condition on which a
  conditional branch of the target machine is taken, with the left operand pushed first
  (the instructions \<^verbatim>\<open>if_icmp<cond>\<close> of the Java Virtual Machine). Neither is code
  of the repository: they state what "the branch is taken iff the comparison holds" means.
\<close>

fun holds :: "kind \<Rightarrow> int \<Rightarrow> int \<Rightarrow> bool" where
  "holds LT x y = (x < y)"
| "holds LE x y = (x \<le> y)"
| "holds GT x y = (x > y)"
| "holds GE x y = (x \<ge> y)"
| "holds EQEQ x y = (x = y)"
| "holds NE x y = (x \<noteq> y)"
| "holds _ x y = False"

definition branch_taken :: "pystr \<Rightarrow> int \<Rightarrow> int \<Rightarrow> bool option" where
  "branch_taken mnemonic x y =
     (if mnemonic = str ''if_icmplt'' then Some (x < y)
      else if mnemonic = str ''if_icmple'' then Some (x \<le> y)
      else if mnemonic = str ''if_icmpgt'' then Some (x > y)
      else if mnemonic = str ''if_icmpge'' then Some (x \<ge> y)
      else if mnemonic = str ''if_icmpeq'' then Some (x = y)
      else if mnemonic = str ''if_icmpne'' then Some (x \<noteq> y)
      else None)"

text \<open>
  The labels defined in a piece of code are fresh over the counter values \<open>lo\<close> to \<open>hi\<close>:
  each number after \<open>lo\<close> up to \<open>hi\<close> is the number of exactly one label definition.
\<close>

definition fresh_labels :: "nat \<Rightarrow> nat \<Rightarrow> pystr list \<Rightarrow> bool" where
  "fresh_labels lo hi ls = (distinct (label_numbers ls) \<and> set (label_numbers ls) = {lo<..hi})"

subsection \<open>The trees of the language\<close>

text \<open>
  The trees of the grammar: a \<^verbatim>\<open>Bin\<close> node carries one of the four arithmetic operators
  and a \<^verbatim>\<open>Cmp\<close> node one of the six comparison operators. These are the operators
  for which the generator has an instruction.
\<close>

fun wf_expr :: "Expr \<Rightarrow> bool" where
  "wf_expr (IntE n) = True"
| "wf_expr (Var name) = True"
| "wf_expr (Bin op a b) =
     ((op = PLUS \<or> op = MINUS \<or> op = MUL \<or> op = DIV) \<and> wf_expr a \<and> wf_expr b)"
| "wf_expr (Cmp op a b) =
     ((op = LT \<or> op = LE \<or> op = GT \<or> op = GE \<or> op = EQEQ \<or> op = NE) \<and> wf_expr a \<and> wf_expr b)"

fun wf_stmt :: "Stmt \<Rightarrow> bool"
  and wf_stmts :: "Stmt list \<Rightarrow> bool"
  and wf_branches :: "(Expr \<times> Stmt list) list \<Rightarrow> bool"
where
  "wf_stmt (LetS name e) = wf_expr e"
| "wf_stmt (Print e) = wf_expr e"
| "wf_stmt (While cond body) = (wf_expr cond \<and> wf_stmts body)"
| "wf_stmt (IfChain branches else_block) =
     (wf_branches branches \<and> (case else_block of None \<Rightarrow> True | Some ss \<Rightarrow> wf_stmts ss))"
| "wf_stmts [] = True"
| "wf_stmts (s # ss) = (wf_stmt s \<and> wf_stmts ss)"
| "wf_branches [] = True"
| "wf_branches ((cond, blk) # bs) = (wf_expr cond \<and> wf_stmts blk \<and> wf_branches bs)"

subsection \<open>What a method reads\<close>

text \<open>
  The vocabulary of the statements about what the parser reads. \<open>shift d r\<close> is the result
  \<open>r\<close> with its position moved by \<open>d\<close>; \<open>oof r\<close> tells that the fuel of the model ran
  out. \<open>opclass\<close> is the level of a binary operator (0 for any other kind), which is all
  that the loop of a level looks at in the token it stops at, and \<open>la toks j\<close> is the
  class of the token at \<open>j\<close>, if there is one.
\<close>

definition shift :: "nat \<Rightarrow> 'a result \<Rightarrow> 'a result" where
  "shift d r = (case r of Raise e j \<Rightarrow> Raise e (j + d) | Return x j \<Rightarrow> Return x (j + d))"

fun oof :: "'a result \<Rightarrow> bool" where
  "oof (Raise e j) = (e = Out_of_fuel)"
| "oof (Return x j) = False"

fun opclass :: "kind \<Rightarrow> nat" where
  "opclass EQEQ = 1"
| "opclass NE = 1"
| "opclass LT = 2"
| "opclass GT = 2"
| "opclass LE = 2"
| "opclass GE = 2"
| "opclass PLUS = 3"
| "opclass MINUS = 3"
| "opclass MUL = 4"
| "opclass DIV = 4"
| "opclass _ = 0"

definition la :: "token list \<Rightarrow> nat \<Rightarrow> nat option" where
  "la toks j = (if j < length toks then Some (opclass (tok_t (toks ! j))) else None)"

text \<open>
  \<open>window toks toks' d i r\<close>: the tokens \<open>toks'\<close>, read \<open>d\<close> positions further, are
  the tokens \<open>toks\<close> from the position \<open>i\<close> up to the position of the result \<open>r\<close>; at
  that position they are the same token if \<open>r\<close> is an error and tokens of the same class if
  \<open>r\<close> is a value. \<open>window_eq\<close> asks for the same token there in both cases.
\<close>

definition window :: "token list \<Rightarrow> token list \<Rightarrow> nat \<Rightarrow> nat \<Rightarrow> 'a result \<Rightarrow> bool" where
  "window toks toks' d i r =
     ((\<forall>k. i \<le> k \<and> k < pos r \<longrightarrow> cur toks' (k + d) = cur toks k)
      \<and> (case r of Raise e j \<Rightarrow> cur toks' (j + d) = cur toks j
                   | Return x j \<Rightarrow> la toks' (j + d) = la toks j))"

definition window_eq :: "token list \<Rightarrow> token list \<Rightarrow> nat \<Rightarrow> nat \<Rightarrow> 'a result \<Rightarrow> bool" where
  "window_eq toks toks' d i r = (\<forall>k. i \<le> k \<and> k \<le> pos r \<longrightarrow> cur toks' (k + d) = cur toks k)"

section \<open>Properties of the code generator\<close>

lemma emit_simps [simp]:
  "lines (emit s g) = lines g @ [s]" "locals (emit s g) = locals g"
  "next_slot (emit s g) = next_slot g" "lbl (emit s g) = lbl g"
  "max_stack_guess (emit s g) = max_stack_guess g"
  by (simp_all add: emit_def)

lemma slot_of_simps [simp]:
  "lines (snd (slot_of x g)) = lines g" "lbl (snd (slot_of x g)) = lbl g"
  "max_stack_guess (snd (slot_of x g)) = max_stack_guess g"
  by (simp_all add: slot_of_def split: option.splits)

lemma new_label_simps [simp]:
  "lines (snd (new_label b g)) = lines g" "lbl (snd (new_label b g)) = Suc (lbl g)"
  "locals (snd (new_label b g)) = locals g" "next_slot (snd (new_label b g)) = next_slot g"
  "max_stack_guess (snd (new_label b g)) = max_stack_guess g"
  "fst (new_label b g) = b @ str_nat (Suc (lbl g))"
  by (simp_all add: new_label_def Let_def)

text \<open>The generator only appends to its output, and what it appends does not depend on
  the lines already there.\<close>

lemma gen_expr_frame:
  "gen_expr e g = Inr g' \<Longrightarrow>
     \<exists>new. lines g' = lines g @ new \<and> gen_expr e (g\<lparr>lines := L\<rparr>) = Inr (g'\<lparr>lines := L @ new\<rparr>)"
proof (induction e arbitrary: g g' L)
  case (IntE n)
  then show ?case by (auto simp: emit_def)
next
  case (Var x)
  then show ?case
    by (auto simp: emit_def emit_iload_def slot_of_def split: option.splits prod.splits)
next
  case (Bin op a b)
  from Bin.prems obtain g1 g2 where a: "gen_expr a g = Inr g1" and b: "gen_expr b g1 = Inr g2"
    by (auto split: sum.splits)
  from Bin.IH(1)[OF a, of L] obtain n1 where n1: "lines g1 = lines g @ n1"
    "gen_expr a (g\<lparr>lines := L\<rparr>) = Inr (g1\<lparr>lines := L @ n1\<rparr>)" by blast
  from Bin.IH(2)[OF b, of "L @ n1"] obtain n2 where n2: "lines g2 = lines g1 @ n2"
    "gen_expr b (g1\<lparr>lines := L @ n1\<rparr>) = Inr (g2\<lparr>lines := L @ n1 @ n2\<rparr>)" by auto
  from Bin.prems a b n1 n2 show ?case
    by (auto simp: emit_def split: if_splits)
next
  case (Cmp op a b)
  from Cmp.prems obtain g1 g2 where a: "gen_expr a g = Inr g1" and b: "gen_expr b g1 = Inr g2"
    by (auto split: sum.splits)
  from Cmp.IH(1)[OF a, of L] obtain n1 where n1: "lines g1 = lines g @ n1"
    "gen_expr a (g\<lparr>lines := L\<rparr>) = Inr (g1\<lparr>lines := L @ n1\<rparr>)" by blast
  from Cmp.IH(2)[OF b, of "L @ n1"] obtain n2 where n2: "lines g2 = lines g1 @ n2"
    "gen_expr b (g1\<lparr>lines := L @ n1\<rparr>) = Inr (g2\<lparr>lines := L @ n1 @ n2\<rparr>)" by auto
  from Cmp.prems a b n1 n2 show ?case
    by (auto simp: emit_def new_label_def Let_def split: option.splits)
qed


lemma upd_lines_twice [simp]: "(g\<lparr>lines := A\<rparr>)\<lparr>lines := B\<rparr> = g\<lparr>lines := B\<rparr>" for g :: codegen
  by simp

lemma gen_stmt_frame:
  "gen_stmt s g = Inr g' \<Longrightarrow>
     \<exists>new. lines g' = lines g @ new \<and> gen_stmt s (g\<lparr>lines := L\<rparr>) = Inr (g'\<lparr>lines := L @ new\<rparr>)"
  "gen_stmts ss g = Inr g' \<Longrightarrow>
     \<exists>new. lines g' = lines g @ new \<and> gen_stmts ss (g\<lparr>lines := L\<rparr>) = Inr (g'\<lparr>lines := L @ new\<rparr>)"
  "gen_branches Lend bs g = Inr g' \<Longrightarrow>
     \<exists>new. lines g' = lines g @ new \<and> gen_branches Lend bs (g\<lparr>lines := L\<rparr>) = Inr (g'\<lparr>lines := L @ new\<rparr>)"
proof (induction s g and ss g and Lend bs g arbitrary: g' L and g' L and g' L
       rule: gen_stmt_gen_stmts_gen_branches.induct)
  case (1 name e g)
  from "1.prems" obtain g1 where e: "gen_expr e g = Inr g1" by (auto split: sum.splits)
  from gen_expr_frame[OF e, of L] obtain n1 where n1: "lines g1 = lines g @ n1"
    "gen_expr e (g\<lparr>lines := L\<rparr>) = Inr (g1\<lparr>lines := L @ n1\<rparr>)" by blast
  from "1.prems" e n1 show ?case
    by (auto simp: emit_def emit_istore_def slot_of_def split: option.splits)
next
  case (2 e g)
  let ?l = "str ''  getstatic java/lang/System/out Ljava/io/PrintStream;''"
  from "2.prems" obtain g1 where e: "gen_expr e (emit ?l g) = Inr g1" by (auto split: sum.splits)
  from gen_expr_frame[OF e, of "L @ [?l]"] obtain n1 where n1: "lines g1 = lines g @ [?l] @ n1"
    "gen_expr e (g\<lparr>lines := L @ [?l]\<rparr>) = Inr (g1\<lparr>lines := L @ [?l] @ n1\<rparr>)"
    by (auto simp: emit_def)
  from "2.prems" e n1 show ?case
    by (auto simp: emit_def)
next
  case (3 cond body g)
  obtain Ltest g1 where l1: "new_label (str ''Loop_test_'') g = (Ltest, g1)" by force
  obtain Lend g2 where l2: "new_label (str ''Loop_end_'') g1 = (Lend, g2)" by force
  from "3.prems" l1 l2 obtain g3 where c: "gen_expr cond (emit (Ltest @ str '':'') g2) = Inr g3"
    by (auto split: sum.splits)
  from "3.prems" l1 l2 c obtain g4 where b: "gen_stmts body (emit (str ''  ifeq '' @ Lend) g3) = Inr g4"
    by (auto split: sum.splits)
  have lg2: "lines g2 = lines g" using l1 l2 by (auto simp: new_label_def Let_def)
  from gen_expr_frame[OF c, of "L @ [Ltest @ str '':'']"] obtain n1 where
    n1: "lines g3 = lines g @ [Ltest @ str '':''] @ n1"
    "gen_expr cond (g2\<lparr>lines := L @ [Ltest @ str '':'']\<rparr>) = Inr (g3\<lparr>lines := L @ [Ltest @ str '':''] @ n1\<rparr>)"
    by (auto simp: emit_def lg2)
  from "3.IH"[OF l1[symmetric] l2[symmetric] c b, of "L @ [Ltest @ str '':''] @ n1 @ [str ''  ifeq '' @ Lend]"]
  obtain n2 where n2: "lines g4 = lines g3 @ [str ''  ifeq '' @ Lend] @ n2"
    "gen_stmts body (g3\<lparr>lines := L @ [Ltest @ str '':''] @ n1 @ [str ''  ifeq '' @ Lend]\<rparr>)
       = Inr (g4\<lparr>lines := L @ [Ltest @ str '':''] @ n1 @ [str ''  ifeq '' @ Lend] @ n2\<rparr>)"
    by (auto simp: emit_def)
  have l1': "new_label (str ''Loop_test_'') (g\<lparr>lines := L\<rparr>) = (Ltest, g1\<lparr>lines := L\<rparr>)"
    using l1 by (auto simp: new_label_def Let_def)
  have l2': "new_label (str ''Loop_end_'') (g1\<lparr>lines := L\<rparr>) = (Lend, g2\<lparr>lines := L\<rparr>)"
    using l2 by (auto simp: new_label_def Let_def)
  from "3.prems" l1 l2 c b n1 n2 l1' l2' show ?case
    by (auto simp: emit_def)
next
  case (4 branches else_block g)
  obtain Lend g1 where l1: "new_label (str ''If_end_'') g = (Lend, g1)" by force
  have l1': "new_label (str ''If_end_'') (g\<lparr>lines := L\<rparr>) = (Lend, g1\<lparr>lines := L\<rparr>)"
    using l1 by (auto simp: new_label_def Let_def)
  have lg1: "lines g1 = lines g" using l1 by (auto simp: new_label_def Let_def)
  from "4.prems" l1 obtain g2 where b: "gen_branches Lend branches g1 = Inr g2"
    by (auto split: sum.splits)
  from "4.IH"(1)[OF l1[symmetric] b, of L] obtain n1 where n1: "lines g2 = lines g @ n1"
    "gen_branches Lend branches (g1\<lparr>lines := L\<rparr>) = Inr (g2\<lparr>lines := L @ n1\<rparr>)"
    by (auto simp: lg1)
  show ?case
  proof (cases else_block)
    case None
    with "4.prems" l1 b n1 l1' show ?thesis by (auto simp: emit_def)
  next
    case (Some ss)
    with "4.prems" l1 b obtain g3 where e: "gen_stmts ss g2 = Inr g3" by (auto split: sum.splits)
    from "4.IH"(2)[OF l1[symmetric] b Some e, of "L @ n1"] obtain n2 where
      n2: "lines g3 = lines g2 @ n2" "gen_stmts ss (g2\<lparr>lines := L @ n1\<rparr>) = Inr (g3\<lparr>lines := L @ n1 @ n2\<rparr>)"
      by auto
    from "4.prems" l1 b n1 l1' Some e n2 show ?thesis by (auto simp: emit_def)
  qed
next
  case (5 g)
  then show ?case by auto
next
  case (6 s ss g)
  from "6.prems" obtain g1 where s: "gen_stmt s g = Inr g1" by (auto split: sum.splits)
  from "6.prems" s have ss: "gen_stmts ss g1 = Inr g'" by simp
  from "6.IH"(1)[OF s, of L] obtain n1 where n1: "lines g1 = lines g @ n1"
    "gen_stmt s (g\<lparr>lines := L\<rparr>) = Inr (g1\<lparr>lines := L @ n1\<rparr>)" by blast
  from "6.IH"(2)[OF s ss, of "L @ n1"] obtain n2 where n2: "lines g' = lines g1 @ n2"
    "gen_stmts ss (g1\<lparr>lines := L @ n1\<rparr>) = Inr (g'\<lparr>lines := L @ n1 @ n2\<rparr>)" by auto
  from s ss n1 n2 show ?case by auto
next
  case (7 Lend g)
  then show ?case by auto
next
  case (8 Lend cond blk bs g)
  obtain Lnext g1 where l1: "new_label (str ''If_next_'') g = (Lnext, g1)" by force
  have l1': "new_label (str ''If_next_'') (g\<lparr>lines := L\<rparr>) = (Lnext, g1\<lparr>lines := L\<rparr>)"
    using l1 by (auto simp: new_label_def Let_def)
  have lg1: "lines g1 = lines g" using l1 by (auto simp: new_label_def Let_def)
  from "8.prems" l1 obtain g2 where c: "gen_expr cond g1 = Inr g2" by (auto split: sum.splits)
  from "8.prems" l1 c obtain g3 where b: "gen_stmts blk (emit (str ''  ifeq '' @ Lnext) g2) = Inr g3"
    by (auto split: sum.splits)
  from "8.prems" l1 c b have r: "gen_branches Lend bs (emit (Lnext @ str '':'') (emit (str ''  goto '' @ Lend) g3)) = Inr g'"
    by simp
  from gen_expr_frame[OF c, of L] obtain n1 where n1: "lines g2 = lines g @ n1"
    "gen_expr cond (g1\<lparr>lines := L\<rparr>) = Inr (g2\<lparr>lines := L @ n1\<rparr>)" by (auto simp: lg1)
  from "8.IH"(1)[OF l1[symmetric] c b, of "L @ n1 @ [str ''  ifeq '' @ Lnext]"] obtain n2 where
    n2: "lines g3 = lines g2 @ [str ''  ifeq '' @ Lnext] @ n2"
     "gen_stmts blk (g2\<lparr>lines := L @ n1 @ [str ''  ifeq '' @ Lnext]\<rparr>)
       = Inr (g3\<lparr>lines := L @ n1 @ [str ''  ifeq '' @ Lnext] @ n2\<rparr>)"
    by (auto simp: emit_def)
  from "8.IH"(2)[OF l1[symmetric] c b r,
      of "L @ n1 @ [str ''  ifeq '' @ Lnext] @ n2 @ [str ''  goto '' @ Lend, Lnext @ str '':'']"]
  obtain n3 where n3: "lines g' = lines g3 @ [str ''  goto '' @ Lend, Lnext @ str '':''] @ n3"
     "gen_branches Lend bs (g3\<lparr>lines := L @ n1 @ [str ''  ifeq '' @ Lnext] @ n2 @ [str ''  goto '' @ Lend, Lnext @ str '':'']\<rparr>)
       = Inr (g'\<lparr>lines := L @ n1 @ [str ''  ifeq '' @ Lnext] @ n2 @ [str ''  goto '' @ Lend, Lnext @ str '':''] @ n3\<rparr>)"
    by (auto simp: emit_def)
  from l1 l1' c b r n1 n2 n3 show ?case by (auto simp: emit_def)
qed

lemma gen_expr_code:
  assumes "gen_expr e g = Inr g'"
  shows "lines g' = lines g @ code_expr e g"
    and "gen_expr e (g\<lparr>lines := L\<rparr>) = Inr (g'\<lparr>lines := L @ code_expr e g\<rparr>)"
  using gen_expr_frame[OF assms, of L] assms by (auto simp: code_expr_def)

lemma gen_stmt_code:
  assumes "gen_stmt s g = Inr g'"
  shows "lines g' = lines g @ code_stmt s g"
    and "gen_stmt s (g\<lparr>lines := L\<rparr>) = Inr (g'\<lparr>lines := L @ code_stmt s g\<rparr>)"
  using gen_stmt_frame(1)[OF assms, of L] assms by (auto simp: code_stmt_def)

lemma gen_stmts_code:
  assumes "gen_stmts ss g = Inr g'"
  shows "lines g' = lines g @ code_stmts ss g"
    and "gen_stmts ss (g\<lparr>lines := L\<rparr>) = Inr (g'\<lparr>lines := L @ code_stmts ss g\<rparr>)"
  using gen_stmt_frame(2)[OF assms, of L] assms by (auto simp: code_stmts_def)

text \<open>The code of a node does not depend on the lines emitted before it.\<close>

lemma code_expr_lines:
  assumes "gen_expr e (g\<lparr>lines := L\<rparr>) = Inr g'"
  shows "code_expr e g = code_expr e (g\<lparr>lines := L\<rparr>)"
    and "gen_expr e g = Inr (g'\<lparr>lines := lines g @ code_expr e g\<rparr>)"
proof -
  from gen_expr_code(2)[OF assms, of "lines g"]
  have *: "gen_expr e g = Inr (g'\<lparr>lines := lines g @ code_expr e (g\<lparr>lines := L\<rparr>)\<rparr>)" by simp
  then show "code_expr e g = code_expr e (g\<lparr>lines := L\<rparr>)" by (simp add: code_expr_def)
  with * show "gen_expr e g = Inr (g'\<lparr>lines := lines g @ code_expr e g\<rparr>)" by simp
qed

lemma code_stmts_lines:
  assumes "gen_stmts ss (g\<lparr>lines := L\<rparr>) = Inr g'"
  shows "code_stmts ss g = code_stmts ss (g\<lparr>lines := L\<rparr>)"
    and "gen_stmts ss g = Inr (g'\<lparr>lines := lines g @ code_stmts ss g\<rparr>)"
proof -
  from gen_stmts_code(2)[OF assms, of "lines g"]
  have *: "gen_stmts ss g = Inr (g'\<lparr>lines := lines g @ code_stmts ss (g\<lparr>lines := L\<rparr>)\<rparr>)" by simp
  then show "code_stmts ss g = code_stmts ss (g\<lparr>lines := L\<rparr>)" by (simp add: code_stmts_def)
  with * show "gen_stmts ss g = Inr (g'\<lparr>lines := lines g @ code_stmts ss g\<rparr>)" by simp
qed

lemma gen_branches_code:
  assumes "gen_branches Lend bs g = Inr g'"
  shows "lines g' = lines g @ code_branches Lend bs g"
    and "gen_branches Lend bs (g\<lparr>lines := L\<rparr>) = Inr (g'\<lparr>lines := L @ code_branches Lend bs g\<rparr>)"
  using gen_stmt_frame(3)[OF assms, of L] assms by (auto simp: code_branches_def)

lemma code_branches_lines:
  assumes "gen_branches Lend bs (g\<lparr>lines := L\<rparr>) = Inr g'"
  shows "code_branches Lend bs g = code_branches Lend bs (g\<lparr>lines := L\<rparr>)"
    and "gen_branches Lend bs g = Inr (g'\<lparr>lines := lines g @ code_branches Lend bs g\<rparr>)"
proof -
  from gen_branches_code(2)[OF assms, of "lines g"]
  have *: "gen_branches Lend bs g = Inr (g'\<lparr>lines := lines g @ code_branches Lend bs (g\<lparr>lines := L\<rparr>)\<rparr>)"
    by simp
  then show "code_branches Lend bs g = code_branches Lend bs (g\<lparr>lines := L\<rparr>)"
    by (simp add: code_branches_def)
  with * show "gen_branches Lend bs g = Inr (g'\<lparr>lines := lines g @ code_branches Lend bs g\<rparr>)" by simp
qed

section \<open>Properties of the parser\<close>

lemma bind_simps [simp]:
  "bind (Raise e j) f = Raise e j"
  "bind (Return x j) f = f x j"
  by (simp_all add: bind_def)

lemma bind_assoc: "bind (bind m f) g = bind m (\<lambda>x j. bind (f x j) g)"
  by (cases m) simp_all

lemma bind_cong_res: "(\<And>x j. f x j = g x j) \<Longrightarrow> bind m f = bind m g"
  by (cases m) simp_all

lemma fold_left_simps [simp]:
  "fold_left mk a [] = a"
  "fold_left mk a ((op, b) # rest) = fold_left mk (mk op a b) rest"
  by (simp_all add: fold_left_def)

lemma equality_loop_chain:
  "equality_loop n U toks i node =
     bind (chain n (\<lambda>m. relational m U) (\<lambda>k. k = EQEQ \<or> k = NE) toks i)
       (\<lambda>rest k. Return (fold_left Cmp node rest) k)"
proof (induction n arbitrary: i node)
  case 0
  show ?case by simp
next
  case (Suc n)
  show ?case
    by (simp add: with_cur_def bind_assoc Suc.IH split: sum.splits)
qed

lemma relational_loop_chain:
  "relational_loop n U toks i node =
     bind (chain n (\<lambda>m. additive m U) (\<lambda>k. k = LT \<or> k = GT \<or> k = LE \<or> k = GE) toks i)
       (\<lambda>rest k. Return (fold_left Cmp node rest) k)"
proof (induction n arbitrary: i node)
  case 0
  show ?case by simp
next
  case (Suc n)
  show ?case
    by (simp add: with_cur_def bind_assoc Suc.IH split: sum.splits)
qed

lemma additive_loop_chain:
  "additive_loop n U toks i node =
     bind (chain n (\<lambda>m. term m U) (\<lambda>k. k = PLUS \<or> k = MINUS) toks i)
       (\<lambda>rest k. Return (fold_left Bin node rest) k)"
proof (induction n arbitrary: i node)
  case 0
  show ?case by simp
next
  case (Suc n)
  show ?case
    by (simp add: with_cur_def bind_assoc Suc.IH split: sum.splits)
qed

lemma term_loop_chain:
  "term_loop n U toks i node =
     bind (chain n (\<lambda>m. factor m U) (\<lambda>k. k = MUL \<or> k = DIV) toks i)
       (\<lambda>rest k. Return (fold_left Bin node rest) k)"
proof (induction n arbitrary: i node)
  case 0
  show ?case by simp
next
  case (Suc n)
  show ?case
    by (simp add: with_cur_def bind_assoc Suc.IH split: sum.splits)
qed

subsection \<open>Slots\<close>

lemma slots_after_simps [simp]:
  "slots_after [] g = g"
  "slots_after (x # xs) g = slots_after xs (snd (slot_of x g))"
  "slots_after (xs @ ys) g = slots_after ys (slots_after xs g)"
  by (simp_all add: slots_after_def)

lemma same_slots_refl [simp]: "same_slots g g"
  by (simp add: same_slots_def)

lemma same_slots_emit [simp]:
  "same_slots (emit l g) g'= same_slots g g'" "same_slots g (emit l g') = same_slots g g'"
  "same_slots (emit_iload k g) g'= same_slots g g'" "same_slots (emit_istore k g) g'= same_slots g g'"
  "same_slots (snd (new_label b g)) g' = same_slots g g'"
  "same_slots (g\<lparr>lines := L\<rparr>) g' = same_slots g g'"
  by (simp_all add: same_slots_def emit_def emit_iload_def emit_istore_def)

lemma same_slots_slot_of:
  "same_slots g g' \<Longrightarrow> same_slots (snd (slot_of x g)) (snd (slot_of x g'))"
  by (auto simp: same_slots_def slot_of_def split: option.splits)

lemma same_slots_after:
  "same_slots g g' \<Longrightarrow> same_slots (slots_after xs g) (slots_after xs g')"
  by (induction xs arbitrary: g g') (auto intro: same_slots_slot_of)

lemma same_slots_trans: "same_slots a b \<Longrightarrow> same_slots b c \<Longrightarrow> same_slots a c"
  by (simp add: same_slots_def)

lemma gen_expr_slots:
  "gen_expr e g = Inr g' \<Longrightarrow> same_slots g' (slots_after (names_expr e) g)"
proof (induction e arbitrary: g g')
  case (Bin op a b)
  from Bin.prems obtain g1 g2 where a: "gen_expr a g = Inr g1" and b: "gen_expr b g1 = Inr g2"
    and g': "same_slots g' g2"
    by (auto split: sum.splits if_splits)
  from Bin.IH(2)[OF b] same_slots_after[OF Bin.IH(1)[OF a]] g' show ?case
    by (auto intro: same_slots_trans)
next
  case (Cmp op a b)
  from Cmp.prems obtain g1 g2 where a: "gen_expr a g = Inr g1" and b: "gen_expr b g1 = Inr g2"
    and g': "same_slots g' g2"
    by (auto split: sum.splits option.splits prod.splits simp: new_label_def Let_def same_slots_def emit_def)
  from Cmp.IH(2)[OF b] same_slots_after[OF Cmp.IH(1)[OF a]] g' show ?case
    by (auto intro: same_slots_trans)
qed (auto split: prod.splits simp: same_slots_def emit_def emit_iload_def)

lemma gen_expr_slots2:
  "gen_expr e g = Inr g' \<Longrightarrow> same_slots g g0 \<Longrightarrow> same_slots g' (slots_after (names_expr e) g0)"
  using gen_expr_slots[of e g g'] same_slots_after[of g g0 "names_expr e"]
  by (auto intro: same_slots_trans)

lemma gen_stmt_slots:
  "gen_stmt s g = Inr g' \<Longrightarrow> same_slots g g0 \<Longrightarrow> same_slots g' (slots_after (names_stmt s) g0)"
  "gen_stmts ss g = Inr g' \<Longrightarrow> same_slots g g0 \<Longrightarrow> same_slots g' (slots_after (names_stmts ss) g0)"
  "gen_branches Lend bs g = Inr g' \<Longrightarrow> same_slots g g0 \<Longrightarrow> same_slots g' (slots_after (names_branches bs) g0)"
proof (induction s g and ss g and Lend bs g arbitrary: g' g0 and g' g0 and g' g0
       rule: gen_stmt_gen_stmts_gen_branches.induct)
  case (1 name e g)
  from "1.prems" obtain g1 where e: "gen_expr e g = Inr g1"
    and g': "g' = emit_istore (fst (slot_of name g1)) (snd (slot_of name g1))"
    by (auto split: sum.splits prod.splits)
  from same_slots_slot_of[OF gen_expr_slots2[OF e "1.prems"(2)], of name] g' show ?case by simp
next
  case (2 e g)
  from "2.prems" obtain g1 where e: "gen_expr e (emit (str ''  getstatic java/lang/System/out Ljava/io/PrintStream;'') g) = Inr g1"
    and g': "g' = emit (str ''  invokevirtual java/io/PrintStream/println(I)V'') g1"
    by (auto split: sum.splits)
  from gen_expr_slots2[OF e, of g0] "2.prems"(2) g' show ?case by simp
next
  case (3 cond body g)
  obtain Ltest g1 where l1: "new_label (str ''Loop_test_'') g = (Ltest, g1)" by force
  obtain Lend g2 where l2: "new_label (str ''Loop_end_'') g1 = (Lend, g2)" by force
  from "3.prems" l1 l2 obtain g3 where c: "gen_expr cond (emit (Ltest @ str '':'') g2) = Inr g3"
    by (auto split: sum.splits)
  from "3.prems" l1 l2 c obtain g4 where b: "gen_stmts body (emit (str ''  ifeq '' @ Lend) g3) = Inr g4"
    and g': "g' = emit (Lend @ str '':'') (emit (str ''  goto '' @ Ltest) g4)"
    by (auto split: sum.splits)
  have s2: "same_slots g2 g0" using l1 l2 "3.prems"(2) by (auto simp: new_label_def Let_def same_slots_def)
  have s3: "same_slots g3 (slots_after (names_expr cond) g0)"
    using gen_expr_slots2[OF c, of g0] s2 by simp
  from "3.IH"[OF l1[symmetric] l2[symmetric] c b, of "slots_after (names_expr cond) g0"] s3 g'
  show ?case by simp
next
  case (4 branches else_block g)
  obtain Lend g1 where l1: "new_label (str ''If_end_'') g = (Lend, g1)" by force
  have s1: "same_slots g1 g0" using l1 "4.prems"(2) by (auto simp: new_label_def Let_def same_slots_def)
  from "4.prems" l1 obtain g2 where b: "gen_branches Lend branches g1 = Inr g2"
    by (auto split: sum.splits)
  have s2: "same_slots g2 (slots_after (names_branches branches) g0)"
    using "4.IH"(1)[OF l1[symmetric] b s1] .
  show ?case
  proof (cases else_block)
    case None
    with "4.prems" l1 b s2 show ?thesis by auto
  next
    case (Some ss)
    with "4.prems" l1 b obtain g3 where e: "gen_stmts ss g2 = Inr g3" and g': "g' = emit (Lend @ str '':'') g3"
      by (auto split: sum.splits)
    from "4.IH"(2)[OF l1[symmetric] b Some e s2] g' Some
    show ?thesis by simp
  qed
next
  case (5 g)
  then show ?case by (auto simp: same_slots_def)
next
  case (6 s ss g)
  from "6.prems" obtain g1 where s: "gen_stmt s g = Inr g1" by (auto split: sum.splits)
  from "6.prems" s have ss: "gen_stmts ss g1 = Inr g'" by simp
  from "6.IH"(2)[OF s ss "6.IH"(1)[OF s "6.prems"(2)]] show ?case by simp
next
  case (7 Lend g)
  then show ?case by (auto simp: same_slots_def)
next
  case (8 Lend cond blk bs g)
  obtain Lnext g1 where l1: "new_label (str ''If_next_'') g = (Lnext, g1)" by force
  have s1: "same_slots g1 g0" using l1 "8.prems"(2) by (auto simp: new_label_def Let_def same_slots_def)
  from "8.prems" l1 obtain g2 where c: "gen_expr cond g1 = Inr g2" by (auto split: sum.splits)
  from "8.prems" l1 c obtain g3 where b: "gen_stmts blk (emit (str ''  ifeq '' @ Lnext) g2) = Inr g3"
    by (auto split: sum.splits)
  from "8.prems" l1 c b have r: "gen_branches Lend bs (emit (Lnext @ str '':'') (emit (str ''  goto '' @ Lend) g3)) = Inr g'"
    by simp
  have s2: "same_slots g2 (slots_after (names_expr cond) g0)"
    using gen_expr_slots2[OF c s1] .
  have s3: "same_slots g3 (slots_after (names_stmts blk) (slots_after (names_expr cond) g0))"
    using "8.IH"(1)[OF l1[symmetric] c b, of "slots_after (names_expr cond) g0"] s2 by simp
  from "8.IH"(2)[OF l1[symmetric] c b r, of "slots_after (names_stmts blk) (slots_after (names_expr cond) g0)"] s3
  show ?case by simp
qed

lemma first_refs_set [simp]: "set (first_refs xs) = set xs"
  by (induction xs) auto

lemma first_refs_distinct [simp]: "distinct (first_refs xs)"
  by (induction xs) auto

lemma map_add_single:
  "m x = None \<Longrightarrow> [x \<mapsto> v] ++ m = m(x \<mapsto> v)"
  by (auto simp: map_add_def fun_eq_iff split: option.splits)

lemma map_of_zip_snoc:
  assumes "x \<notin> set pre"
  shows "map_of (zip (pre @ [x]) [b..<b + length (pre @ [x])])
           = (map_of (zip pre [b..<b + length pre]))(x \<mapsto> b + length pre)"
proof -
  have "[b..<b + length (pre @ [x])] = [b..<b + length pre] @ [b + length pre]"
    by simp
  then have z: "zip (pre @ [x]) [b..<b + length (pre @ [x])] = zip pre [b..<b + length pre] @ [(x, b + length pre)]"
    by (simp del: upt_Suc)
  have "dom (map_of (zip pre [b..<b + length pre])) = set pre"
    by (simp add: dom_map_of_zip)
  with assms have n: "map_of (zip pre [b..<b + length pre]) x = None"
    by (metis domIff)
  show ?thesis unfolding z map_of_append
    using map_add_single[of "map_of (zip pre [b..<b + length pre])" x "b + length pre", OF n] by simp
qed

lemma slots_after_zip:
  assumes "distinct pre" "locals g = map_of (zip pre [b..<b + length pre])"
    "next_slot g = b + length pre"
  shows "locals (slots_after xs g) =
           map_of (zip (pre @ filter (\<lambda>x. x \<notin> set pre) (first_refs xs))
                       [b..<b + length (pre @ filter (\<lambda>x. x \<notin> set pre) (first_refs xs))])
         \<and> next_slot (slots_after xs g) = b + length (pre @ filter (\<lambda>x. x \<notin> set pre) (first_refs xs))"
  using assms
proof (induction xs arbitrary: pre g)
  case Nil
  then show ?case by simp
next
  case (Cons x xs)
  show ?case
  proof (cases "x \<in> set pre")
    case True
    then have "locals g x \<noteq> None"
      using Cons.prems by (metis dom_map_of_zip domIff length_upt add_diff_cancel_left')
    then have g1: "snd (slot_of x g) = g" by (auto simp: slot_of_def)
    have f: "filter (\<lambda>y. y \<notin> set pre) (first_refs (x # xs)) = filter (\<lambda>y. y \<notin> set pre) (first_refs xs)"
      using True by (auto intro: filter_cong)
    from Cons.IH[OF Cons.prems] g1 f show ?thesis by simp
  next
    case False
    then have "locals g x = None"
      using Cons.prems by (metis dom_map_of_zip domIff length_upt add_diff_cancel_left')
    then have g1: "locals (snd (slot_of x g)) = (locals g)(x \<mapsto> next_slot g)"
      "next_slot (snd (slot_of x g)) = Suc (next_slot g)" by (auto simp: slot_of_def)
    have d: "distinct (pre @ [x])" using False Cons.prems by simp
    have l: "locals (snd (slot_of x g)) = map_of (zip (pre @ [x]) [b..<b + length (pre @ [x])])"
      using g1 Cons.prems map_of_zip_snoc[OF False, of b] by simp
    have n: "next_slot (snd (slot_of x g)) = b + length (pre @ [x])"
      using g1 Cons.prems by simp
    have f: "pre @ filter (\<lambda>y. y \<notin> set pre) (first_refs (x # xs))
           = (pre @ [x]) @ filter (\<lambda>y. y \<notin> set (pre @ [x])) (first_refs xs)"
      using False by (auto intro: filter_cong)
    from Cons.IH[OF d l n] show ?thesis unfolding f by simp
  qed
qed

lemma slots_after_fresh:
  "locals (slots_after xs Codegen) = map_of (zip (first_refs xs) [1..<1 + length (first_refs xs)])"
  "next_slot (slots_after xs Codegen) = 1 + length (first_refs xs)"
  using slots_after_zip[of "[]" Codegen 1 xs] by (simp_all add: Codegen_def)

lemma slot_of_mono: "locals g \<subseteq>\<^sub>m locals (snd (slot_of x g))"
  by (auto simp: slot_of_def map_le_def split: option.splits)

lemma slots_after_mono: "locals g \<subseteq>\<^sub>m locals (slots_after xs g)"
proof (induction xs arbitrary: g)
  case (Cons x xs)
  show ?case using map_le_trans[OF slot_of_mono Cons.IH] by simp
qed simp

subsection \<open>The code of each construct\<close>

text \<open>A generator that differs from another in its lines only.\<close>

lemma emit_as_update: "emit l g = g\<lparr>lines := lines g @ [l]\<rparr>"
  by (simp add: emit_def)

lemma code_expr_emit:
  assumes "gen_expr e (emit l g) = Inr g'"
  shows "code_expr e (emit l g) = code_expr e g"
    and "lines g' = lines g @ [l] @ code_expr e g"
    and "gen_expr e g = Inr (g'\<lparr>lines := lines g @ code_expr e g\<rparr>)"
proof -
  note a = assms[unfolded emit_as_update]
  show c: "code_expr e (emit l g) = code_expr e g"
    using code_expr_lines(1)[OF a] by (simp only: emit_as_update)
  show "lines g' = lines g @ [l] @ code_expr e g"
    using gen_expr_code(1)[OF assms] c by simp
  show "gen_expr e g = Inr (g'\<lparr>lines := lines g @ code_expr e g\<rparr>)"
    using code_expr_lines(2)[OF a] .
qed

lemma code_stmts_emit:
  assumes "gen_stmts ss (emit l g) = Inr g'"
  shows "code_stmts ss (emit l g) = code_stmts ss g"
    and "lines g' = lines g @ [l] @ code_stmts ss g"
    and "gen_stmts ss g = Inr (g'\<lparr>lines := lines g @ code_stmts ss g\<rparr>)"
proof -
  note a = assms[unfolded emit_as_update]
  show c: "code_stmts ss (emit l g) = code_stmts ss g"
    using code_stmts_lines(1)[OF a] by (simp only: emit_as_update)
  show "lines g' = lines g @ [l] @ code_stmts ss g"
    using gen_stmts_code(1)[OF assms] c by simp
  show "gen_stmts ss g = Inr (g'\<lparr>lines := lines g @ code_stmts ss g\<rparr>)"
    using code_stmts_lines(2)[OF a] .
qed

lemma code_exprI: "gen_expr e g = Inr g' \<Longrightarrow> lines g' = lines g @ X \<Longrightarrow> code_expr e g = X"
  by (simp add: code_expr_def)

lemma code_stmtI: "gen_stmt s g = Inr g' \<Longrightarrow> lines g' = lines g @ X \<Longrightarrow> code_stmt s g = X"
  by (simp add: code_stmt_def)

lemma code_stmtsI: "gen_stmts ss g = Inr g' \<Longrightarrow> lines g' = lines g @ X \<Longrightarrow> code_stmts ss g = X"
  by (simp add: code_stmts_def)

lemma code_branchesI:
  "gen_branches Lend bs g = Inr g' \<Longrightarrow> lines g' = lines g @ X \<Longrightarrow> code_branches Lend bs g = X"
  by (simp add: code_branches_def)

lemma code_IntE: "code_expr (IntE n) g = [str ''  sipush '' @ str_int n]"
  by (rule code_exprI[of _ _ "emit (str ''  sipush '' @ str_int n) g"]) simp_all

lemma gen_expr_Var:
  "gen_expr (Var x) g = Inr (emit_iload (fst (slot_of x g)) (snd (slot_of x g)))"
  by (simp split: prod.splits)

lemma code_Var:
  "code_expr (Var x) g =
     [if fst (slot_of x g) \<le> 3 then str ''  iload_'' @ str_nat (fst (slot_of x g))
      else str ''  iload '' @ str_nat (fst (slot_of x g))]"
  by (rule code_exprI[OF gen_expr_Var]) (simp add: emit_iload_def)

lemma code_Bin:
  assumes "gen_expr (Bin op a b) g = Inr g'"
  shows "\<exists>g1 g2. gen_expr a g = Inr g1 \<and> gen_expr b g1 = Inr g2
           \<and> locals g' = locals g2 \<and> next_slot g' = next_slot g2 \<and> lbl g' = lbl g2
           \<and> code_expr (Bin op a b) g = code_expr a g @ code_expr b g1 @
               [if op = PLUS then str ''  iadd'' else if op = MINUS then str ''  isub''
                else if op = MUL then str ''  imul'' else str ''  idiv'']"
proof -
  from assms obtain g1 g2 where a: "gen_expr a g = Inr g1" and b: "gen_expr b g1 = Inr g2"
    by (auto split: sum.splits)
  let ?i = "if op = PLUS then str ''  iadd'' else if op = MINUS then str ''  isub''
                else if op = MUL then str ''  imul'' else str ''  idiv''"
  from assms a b have g': "g' = emit ?i g2"
    by (auto split: if_splits)
  have "lines g' = lines g @ code_expr a g @ code_expr b g1 @ [?i]"
    unfolding g' using gen_expr_code(1)[OF a] gen_expr_code(1)[OF b] by simp
  from code_exprI[OF assms this] a b g' show ?thesis by simp
qed

lemma code_Cmp:
  assumes "gen_expr (Cmp op a b) g = Inr g'"
  shows "\<exists>g1 g2 j. gen_expr a g = Inr g1 \<and> gen_expr b g1 = Inr g2 \<and> jmp op = Some j
           \<and> locals g' = locals g2 \<and> next_slot g' = next_slot g2 \<and> lbl g' = lbl g2 + 2
           \<and> code_expr (Cmp op a b) g = code_expr a g @ code_expr b g1 @
               [str ''  '' @ j @ str '' '' @ str ''Cmp_true_'' @ str_nat (lbl g2 + 1),
                str ''  iconst_0'',
                str ''  goto '' @ str ''Cmp_end_'' @ str_nat (lbl g2 + 2),
                str ''Cmp_true_'' @ str_nat (lbl g2 + 1) @ str '':'',
                str ''  iconst_1'',
                str ''Cmp_end_'' @ str_nat (lbl g2 + 2) @ str '':'']"
proof -
  from assms obtain g1 g2 j where a: "gen_expr a g = Inr g1" and b: "gen_expr b g1 = Inr g2"
    and j: "jmp op = Some j"
    by (auto split: sum.splits option.splits prod.splits)
  let ?new = "[str ''  '' @ j @ str '' '' @ str ''Cmp_true_'' @ str_nat (lbl g2 + 1),
                str ''  iconst_0'',
                str ''  goto '' @ str ''Cmp_end_'' @ str_nat (lbl g2 + 2),
                str ''Cmp_true_'' @ str_nat (lbl g2 + 1) @ str '':'',
                str ''  iconst_1'',
                str ''Cmp_end_'' @ str_nat (lbl g2 + 2) @ str '':'']"
  from assms a b j have l: "lines g' = lines g2 @ ?new" and s: "locals g' = locals g2"
    "next_slot g' = next_slot g2" "lbl g' = lbl g2 + 2"
    by (auto simp: new_label_def Let_def emit_def)
  have "lines g' = lines g @ code_expr a g @ code_expr b g1 @ ?new"
    unfolding l using gen_expr_code(1)[OF a] gen_expr_code(1)[OF b] by simp
  from code_exprI[OF assms this] a b j s show ?thesis by simp
qed


lemma code_branches_emit:
  assumes "gen_branches Lend bs (emit l g) = Inr g'"
  shows "code_branches Lend bs (emit l g) = code_branches Lend bs g"
    and "lines g' = lines g @ [l] @ code_branches Lend bs g"
    and "gen_branches Lend bs g = Inr (g'\<lparr>lines := lines g @ code_branches Lend bs g\<rparr>)"
proof -
  note a = assms[unfolded emit_as_update]
  show c: "code_branches Lend bs (emit l g) = code_branches Lend bs g"
    using code_branches_lines(1)[OF a] by (simp only: emit_as_update)
  show "lines g' = lines g @ [l] @ code_branches Lend bs g"
    using gen_branches_code(1)[OF assms] c by simp
  show "gen_branches Lend bs g = Inr (g'\<lparr>lines := lines g @ code_branches Lend bs g\<rparr>)"
    using code_branches_lines(2)[OF a] .
qed

lemma code_LetS:
  assumes "gen_stmt (LetS name e) g = Inr g'"
  shows "\<exists>g1. gen_expr e g = Inr g1 \<and> lbl g' = lbl g1
           \<and> code_stmt (LetS name e) g = code_expr e g @
               [if fst (slot_of name g1) \<le> 3 then str ''  istore_'' @ str_nat (fst (slot_of name g1))
                else str ''  istore '' @ str_nat (fst (slot_of name g1))]"
proof -
  from assms obtain g1 where e: "gen_expr e g = Inr g1"
    and g': "g' = emit_istore (fst (slot_of name g1)) (snd (slot_of name g1))"
    by (auto split: sum.splits prod.splits)
  let ?i = "if fst (slot_of name g1) \<le> 3 then str ''  istore_'' @ str_nat (fst (slot_of name g1))
                else str ''  istore '' @ str_nat (fst (slot_of name g1))"
  have "lines g' = lines g @ code_expr e g @ [?i]"
    unfolding g' using gen_expr_code(1)[OF e] by (simp add: emit_istore_def)
  from code_stmtI[OF assms this] e g' show ?thesis by (simp add: emit_istore_def)
qed

lemma code_Print:
  assumes "gen_stmt (Print e) g = Inr g'"
  shows "\<exists>g1. gen_expr e g = Inr g1
           \<and> locals g' = locals g1 \<and> next_slot g' = next_slot g1 \<and> lbl g' = lbl g1
           \<and> code_stmt (Print e) g =
               [str ''  getstatic java/lang/System/out Ljava/io/PrintStream;''] @ code_expr e g @
               [str ''  invokevirtual java/io/PrintStream/println(I)V'']"
proof -
  let ?gs = "str ''  getstatic java/lang/System/out Ljava/io/PrintStream;''"
  from assms obtain g1 where g1: "gen_expr e (emit ?gs g) = Inr g1"
    and g': "g' = emit (str ''  invokevirtual java/io/PrintStream/println(I)V'') g1"
    by (auto split: sum.splits)
  from code_expr_emit(2)[OF g1] g'
  have "lines g' = lines g @ [?gs] @ code_expr e g @ [str ''  invokevirtual java/io/PrintStream/println(I)V'']"
    by simp
  from code_stmtI[OF assms this] code_expr_emit(3)[OF g1] g' show ?thesis by simp
qed

lemma code_While:
  assumes "gen_stmt (While cond body) g = Inr g'"
  shows "\<exists>g3 g4.
           gen_expr cond (emit (str ''Loop_test_'' @ str_nat (lbl g + 1) @ str '':'') (g\<lparr>lbl := lbl g + 2\<rparr>)) = Inr g3
           \<and> gen_stmts body (emit (str ''  ifeq '' @ str ''Loop_end_'' @ str_nat (lbl g + 2)) g3) = Inr g4
           \<and> locals g' = locals g4 \<and> next_slot g' = next_slot g4 \<and> lbl g' = lbl g4
           \<and> code_stmt (While cond body) g =
               [str ''Loop_test_'' @ str_nat (lbl g + 1) @ str '':''] @
               code_expr cond (g\<lparr>lbl := lbl g + 2\<rparr>) @
               [str ''  ifeq '' @ str ''Loop_end_'' @ str_nat (lbl g + 2)] @
               code_stmts body g3 @
               [str ''  goto '' @ str ''Loop_test_'' @ str_nat (lbl g + 1),
                str ''Loop_end_'' @ str_nat (lbl g + 2) @ str '':'']"
proof -
  let ?Ltest = "str ''Loop_test_'' @ str_nat (lbl g + 1)"
  let ?Lend = "str ''Loop_end_'' @ str_nat (lbl g + 2)"
  let ?g2 = "g\<lparr>lbl := lbl g + 2\<rparr>"
  have l1: "new_label (str ''Loop_test_'') g = (?Ltest, g\<lparr>lbl := lbl g + 1\<rparr>)"
    by (simp add: new_label_def Let_def)
  have l2: "new_label (str ''Loop_end_'') (g\<lparr>lbl := lbl g + 1\<rparr>) = (?Lend, ?g2)"
    by (simp add: new_label_def Let_def)
  from assms l1 l2 obtain g3 where c: "gen_expr cond (emit (?Ltest @ str '':'') ?g2) = Inr g3"
    by (auto split: sum.splits)
  from assms l1 l2 c obtain g4 where b: "gen_stmts body (emit (str ''  ifeq '' @ ?Lend) g3) = Inr g4"
    and g': "g' = emit (?Lend @ str '':'') (emit (str ''  goto '' @ ?Ltest) g4)"
    by (auto split: sum.splits)
  have "lines g' = lines g @ [?Ltest @ str '':''] @ code_expr cond ?g2 @ [str ''  ifeq '' @ ?Lend]
          @ code_stmts body g3 @ [str ''  goto '' @ ?Ltest, ?Lend @ str '':'']"
    unfolding g' using code_expr_emit(2)[OF c] code_stmts_emit(2)[OF b] by simp
  from code_stmtI[OF assms this] c b g' show ?thesis by simp
qed

lemma code_stmts_Nil: "code_stmts [] g = []"
  by (simp add: code_stmts_def)

lemma code_stmts_Cons:
  assumes "gen_stmts (s # ss) g = Inr g'"
  shows "\<exists>g1. gen_stmt s g = Inr g1 \<and> gen_stmts ss g1 = Inr g'
           \<and> code_stmts (s # ss) g = code_stmt s g @ code_stmts ss g1"
proof -
  from assms obtain g1 where s: "gen_stmt s g = Inr g1" and ss: "gen_stmts ss g1 = Inr g'"
    by (auto split: sum.splits)
  have "lines g' = lines g @ code_stmt s g @ code_stmts ss g1"
    using gen_stmt_code(1)[OF s] gen_stmts_code(1)[OF ss] by simp
  from code_stmtsI[OF assms this] s ss show ?thesis by simp
qed

lemma code_branches_Nil: "code_branches Lend [] g = []"
  by (simp add: code_branches_def)

lemma code_branches_Cons:
  assumes "gen_branches Lend ((cond, blk) # bs) g = Inr g'"
  shows "\<exists>g2 g3.
           gen_expr cond (g\<lparr>lbl := lbl g + 1\<rparr>) = Inr g2
           \<and> gen_stmts blk (emit (str ''  ifeq '' @ str ''If_next_'' @ str_nat (lbl g + 1)) g2) = Inr g3
           \<and> gen_branches Lend bs
                (emit (str ''If_next_'' @ str_nat (lbl g + 1) @ str '':'') (emit (str ''  goto '' @ Lend) g3)) = Inr g'
           \<and> code_branches Lend ((cond, blk) # bs) g =
               code_expr cond (g\<lparr>lbl := lbl g + 1\<rparr>) @
               [str ''  ifeq '' @ str ''If_next_'' @ str_nat (lbl g + 1)] @
               code_stmts blk g2 @
               [str ''  goto '' @ Lend, str ''If_next_'' @ str_nat (lbl g + 1) @ str '':''] @
               code_branches Lend bs g3"
proof -
  let ?Lnext = "str ''If_next_'' @ str_nat (lbl g + 1)"
  let ?g1 = "g\<lparr>lbl := lbl g + 1\<rparr>"
  have l1: "new_label (str ''If_next_'') g = (?Lnext, ?g1)"
    by (simp add: new_label_def Let_def)
  from assms l1 obtain g2 where c: "gen_expr cond ?g1 = Inr g2"
    by (auto split: sum.splits)
  from assms l1 c obtain g3 where b: "gen_stmts blk (emit (str ''  ifeq '' @ ?Lnext) g2) = Inr g3"
    by (auto split: sum.splits)
  from assms l1 c b have r: "gen_branches Lend bs
        (emit (?Lnext @ str '':'') (emit (str ''  goto '' @ Lend) g3)) = Inr g'"
    by simp
  have e2: "emit (?Lnext @ str '':'') (emit (str ''  goto '' @ Lend) g3)
      = g3\<lparr>lines := lines g3 @ [str ''  goto '' @ Lend, ?Lnext @ str '':'']\<rparr>"
    by (simp add: emit_def)
  have cr: "code_branches Lend bs g3 = code_branches Lend bs (emit (?Lnext @ str '':'') (emit (str ''  goto '' @ Lend) g3))"
    using code_branches_lines(1)[OF r[unfolded e2]] by (simp only: e2)
  have "lines g' = lines g @ code_expr cond ?g1 @ [str ''  ifeq '' @ ?Lnext] @ code_stmts blk g2
          @ [str ''  goto '' @ Lend, ?Lnext @ str '':''] @ code_branches Lend bs g3"
    using gen_expr_code(1)[OF c] code_stmts_emit(2)[OF b] gen_branches_code(1)[OF r] cr
    by simp
  from code_branchesI[OF assms this] c b r show ?thesis by simp
qed

lemma code_IfChain:
  assumes "gen_stmt (IfChain branches else_block) g = Inr g'"
  shows "\<exists>g2 g3.
           gen_branches (str ''If_end_'' @ str_nat (lbl g + 1)) branches (g\<lparr>lbl := lbl g + 1\<rparr>) = Inr g2
           \<and> (case else_block of None \<Rightarrow> Inr g2 | Some ss \<Rightarrow> gen_stmts ss g2) = Inr g3
           \<and> locals g' = locals g3 \<and> next_slot g' = next_slot g3 \<and> lbl g' = lbl g3
           \<and> code_stmt (IfChain branches else_block) g =
               code_branches (str ''If_end_'' @ str_nat (lbl g + 1)) branches (g\<lparr>lbl := lbl g + 1\<rparr>) @
               (case else_block of None \<Rightarrow> [] | Some ss \<Rightarrow> code_stmts ss g2) @
               [str ''If_end_'' @ str_nat (lbl g + 1) @ str '':'']"
proof -
  let ?Lend = "str ''If_end_'' @ str_nat (lbl g + 1)"
  let ?g1 = "g\<lparr>lbl := lbl g + 1\<rparr>"
  have l1: "new_label (str ''If_end_'') g = (?Lend, ?g1)"
    by (simp add: new_label_def Let_def)
  from assms l1 obtain g2 where b: "gen_branches ?Lend branches ?g1 = Inr g2"
    by (auto split: sum.splits)
  from assms l1 b obtain g3 where e: "(case else_block of None \<Rightarrow> Inr g2 | Some ss \<Rightarrow> gen_stmts ss g2) = Inr g3"
    and g': "g' = emit (?Lend @ str '':'') g3"
    by (auto split: sum.splits)
  have "lines g3 = lines g2 @ (case else_block of None \<Rightarrow> [] | Some ss \<Rightarrow> code_stmts ss g2)"
    using e by (auto split: option.splits dest: gen_stmts_code(1))
  then have "lines g' = lines g @ code_branches ?Lend branches ?g1
      @ (case else_block of None \<Rightarrow> [] | Some ss \<Rightarrow> code_stmts ss g2) @ [?Lend @ str '':'']"
    unfolding g' using gen_branches_code(1)[OF b] by simp
  from code_stmtI[OF assms this] b e g' show ?thesis by simp
qed

subsection \<open>Decimal numbers and labels\<close>

lemma str_nat_digits: "\<forall>c \<in> set (str_nat n). is_digit c"
proof (induction n rule: str_nat.induct)
  case (1 n)
  show ?case
  proof (cases "n < 10")
    case True
    then show ?thesis by (subst str_nat.simps) (simp add: is_digit_def)
  next
    case False
    have "n mod 10 < 10" by simp
    then have "is_digit (48 + n mod 10)" by (simp add: is_digit_def)
    with False "1.IH" show ?thesis by (subst str_nat.simps) simp
  qed
qed

lemma str_nat_nonempty [simp]: "str_nat n \<noteq> []"
  by (subst str_nat.simps) simp

lemma nat_of_digits_snoc: "nat_of_digits (ds @ [d]) = 10 * nat_of_digits ds + (d - 48)"
  by (simp add: nat_of_digits_def)

lemma nat_of_digits_str_nat [simp]: "nat_of_digits (str_nat n) = n"
proof (induction n rule: str_nat.induct)
  case (1 n)
  show ?case
  proof (cases "n < 10")
    case True
    then show ?thesis by (subst str_nat.simps) (simp add: nat_of_digits_def)
  next
    case False
    with "1.IH" show ?thesis
      by (subst str_nat.simps) (simp add: nat_of_digits_snoc)
  qed
qed

lemma str_nat_inj: "str_nat m = str_nat n \<Longrightarrow> m = n"
  by (metis nat_of_digits_str_nat)

lemma label_number_label:
  assumes "b \<noteq> []" "\<not> is_digit (last b)"
  shows "label_number (b @ str_nat k @ [58]) = k"
proof -
  have "butlast (b @ str_nat k @ [58]) = b @ str_nat k"
    by (simp add: butlast_append)
  moreover have "takeWhile is_digit (rev (str_nat k) @ rev b) = rev (str_nat k)"
  proof -
    have "\<forall>c \<in> set (rev (str_nat k)). is_digit c" using str_nat_digits by simp
    moreover have "rev b \<noteq> []" "\<not> is_digit (hd (rev b))"
      using assms by (simp_all add: hd_rev)
    ultimately show ?thesis
      by (cases "rev b") (simp_all add: takeWhile_tail)
  qed
  ultimately show ?thesis by (simp add: label_number_def)
qed

lemma label_line_label:
  "b \<noteq> [] \<Longrightarrow> hd b \<noteq> 32 \<Longrightarrow> hd b \<noteq> 46 \<Longrightarrow> label_line (b @ str_nat k @ [58])"
  by (simp add: label_line_def)

lemma not_label_line_indented [simp]: "\<not> label_line (32 # l)"
  by (simp add: label_line_def)

subsection \<open>Fresh labels\<close>

lemma label_numbers_Nil [simp]: "label_numbers [] = []"
  by (simp add: label_numbers_def)

lemma label_numbers_append [simp]: "label_numbers (xs @ ys) = label_numbers xs @ label_numbers ys"
  by (simp add: label_numbers_def)

lemma label_numbers_indented [simp]: "label_numbers ((32 # l) # ls) = label_numbers ls"
  by (simp add: label_numbers_def)

lemma label_numbers_label:
  "b \<noteq> [] \<Longrightarrow> hd b \<noteq> 32 \<Longrightarrow> hd b \<noteq> 46 \<Longrightarrow> \<not> is_digit (last b)
     \<Longrightarrow> label_numbers ((b @ str_nat k @ [58]) # ls) = k # label_numbers ls"
  by (simp add: label_numbers_def label_line_label label_number_label)

lemma label_numbers_bases [simp]:
  "label_numbers ((str ''Cmp_true_'' @ str_nat k @ str '':'') # ls) = k # label_numbers ls"
  "label_numbers ((str ''Cmp_end_'' @ str_nat k @ str '':'') # ls) = k # label_numbers ls"
  "label_numbers ((str ''Loop_test_'' @ str_nat k @ str '':'') # ls) = k # label_numbers ls"
  "label_numbers ((str ''Loop_end_'' @ str_nat k @ str '':'') # ls) = k # label_numbers ls"
  "label_numbers ((str ''If_end_'' @ str_nat k @ str '':'') # ls) = k # label_numbers ls"
  "label_numbers ((str ''If_next_'' @ str_nat k @ str '':'') # ls) = k # label_numbers ls"
  using label_numbers_label[of "str ''Cmp_true_''" k ls]
        label_numbers_label[of "str ''Cmp_end_''" k ls]
        label_numbers_label[of "str ''Loop_test_''" k ls]
        label_numbers_label[of "str ''Loop_end_''" k ls]
        label_numbers_label[of "str ''If_end_''" k ls]
        label_numbers_label[of "str ''If_next_''" k ls]
  by (simp_all add: str_def is_digit_def)

lemma label_numbers_instr [simp]:
  "label_numbers ((str (CHR '' '' # s) @ r) # ls) = label_numbers ls"
  "label_numbers (str (CHR '' '' # s) # ls) = label_numbers ls"
  by (simp_all add: str_def)

lemma label_numbers_if [simp]:
  "label_numbers ((if c then x else y) # ls) = (if c then label_numbers (x # ls) else label_numbers (y # ls))"
  by simp

lemma fresh_labels_empty [simp]: "fresh_labels k k [] "
  by (simp add: fresh_labels_def)

lemma fresh_labels_append:
  "fresh_labels lo mid xs \<Longrightarrow> fresh_labels mid hi ys \<Longrightarrow> lo \<le> mid \<Longrightarrow> mid \<le> hi
     \<Longrightarrow> fresh_labels lo hi (xs @ ys)"
  by (auto simp: fresh_labels_def)

lemma gen_expr_labels:
  "gen_expr e g = Inr g' \<Longrightarrow>
     lbl g' = lbl g + labels_expr e \<and> fresh_labels (lbl g) (lbl g') (code_expr e g)"
proof (induction e arbitrary: g g')
  case (IntE n)
  then show ?case by (auto simp: code_IntE fresh_labels_def)
next
  case (Var x)
  from Var.prems[unfolded gen_expr_Var] have "g' = emit_iload (fst (slot_of x g)) (snd (slot_of x g))"
    by simp
  then show ?case by (simp add: code_Var fresh_labels_def emit_iload_def)
next
  case (Bin op a b)
  from code_Bin[OF Bin.prems] obtain g1 g2 where a: "gen_expr a g = Inr g1"
    and b: "gen_expr b g1 = Inr g2" and l: "lbl g' = lbl g2"
    and c: "code_expr (Bin op a b) g = code_expr a g @ code_expr b g1 @
               [if op = PLUS then str ''  iadd'' else if op = MINUS then str ''  isub''
                else if op = MUL then str ''  imul'' else str ''  idiv'']"
    by blast
  from Bin.IH(1)[OF a] Bin.IH(2)[OF b] l show ?case
    unfolding c by (auto simp: fresh_labels_def)
next
  case (Cmp op a b)
  from code_Cmp[OF Cmp.prems] obtain g1 g2 j where a: "gen_expr a g = Inr g1"
    and b: "gen_expr b g1 = Inr g2" and l: "lbl g' = lbl g2 + 2"
    and c: "code_expr (Cmp op a b) g = code_expr a g @ code_expr b g1 @
               [str ''  '' @ j @ str '' '' @ str ''Cmp_true_'' @ str_nat (lbl g2 + 1),
                str ''  iconst_0'',
                str ''  goto '' @ str ''Cmp_end_'' @ str_nat (lbl g2 + 2),
                str ''Cmp_true_'' @ str_nat (lbl g2 + 1) @ str '':'',
                str ''  iconst_1'',
                str ''Cmp_end_'' @ str_nat (lbl g2 + 2) @ str '':'']"
    by blast
  from Cmp.IH(1)[OF a] Cmp.IH(2)[OF b] l show ?case
    unfolding c by (auto simp: fresh_labels_def)
qed


lemma code_lbl_update [simp]:
  "lbl (g\<lparr>lines := L\<rparr>) = lbl g"
  by simp

lemma gen_stmt_labels:
  "gen_stmt s g = Inr g' \<Longrightarrow>
     lbl g' = lbl g + labels_stmt s \<and> fresh_labels (lbl g) (lbl g') (code_stmt s g)"
  "gen_stmts ss g = Inr g' \<Longrightarrow>
     lbl g' = lbl g + labels_stmts ss \<and> fresh_labels (lbl g) (lbl g') (code_stmts ss g)"
  "gen_branches Lend bs g = Inr g' \<Longrightarrow>
     lbl g' = lbl g + labels_branches bs \<and> fresh_labels (lbl g) (lbl g') (code_branches Lend bs g)"
proof (induction s g and ss g and Lend bs g arbitrary: g' and g' and g'
       rule: gen_stmt_gen_stmts_gen_branches.induct)
  case (1 name e g)
  from code_LetS[OF "1.prems"] obtain g1 where e: "gen_expr e g = Inr g1" and l: "lbl g' = lbl g1"
    and c: "code_stmt (LetS name e) g = code_expr e g @
               [if fst (slot_of name g1) \<le> 3 then str ''  istore_'' @ str_nat (fst (slot_of name g1))
                else str ''  istore '' @ str_nat (fst (slot_of name g1))]"
    by blast
  from gen_expr_labels[OF e] l show ?case unfolding c by (auto simp: fresh_labels_def)
next
  case (2 e g)
  from code_Print[OF "2.prems"] obtain g1 where e: "gen_expr e g = Inr g1" and l: "lbl g' = lbl g1"
    and c: "code_stmt (Print e) g =
               [str ''  getstatic java/lang/System/out Ljava/io/PrintStream;''] @ code_expr e g @
               [str ''  invokevirtual java/io/PrintStream/println(I)V'']"
    by blast
  from gen_expr_labels[OF e] l show ?case unfolding c by (auto simp: fresh_labels_def)
next
  case (3 cond body g)
  let ?Ltest = "str ''Loop_test_'' @ str_nat (lbl g + 1)"
  let ?Lend = "str ''Loop_end_'' @ str_nat (lbl g + 2)"
  let ?g2 = "g\<lparr>lbl := lbl g + 2\<rparr>"
  have l1: "(?Ltest, g\<lparr>lbl := lbl g + 1\<rparr>) = new_label (str ''Loop_test_'') g"
    by (simp add: new_label_def Let_def)
  have l2: "(?Lend, ?g2) = new_label (str ''Loop_end_'') (g\<lparr>lbl := lbl g + 1\<rparr>)"
    by (simp add: new_label_def Let_def)
  from code_While[OF "3.prems"] obtain g3 g4 where
    c: "gen_expr cond (emit (?Ltest @ str '':'') ?g2) = Inr g3"
    and b: "gen_stmts body (emit (str ''  ifeq '' @ ?Lend) g3) = Inr g4"
    and l: "lbl g' = lbl g4"
    and cd: "code_stmt (While cond body) g =
               [?Ltest @ str '':''] @ code_expr cond ?g2 @ [str ''  ifeq '' @ ?Lend] @
               code_stmts body g3 @ [str ''  goto '' @ ?Ltest, ?Lend @ str '':'']"
    by auto
  from gen_expr_labels[OF c] code_expr_emit(1)[OF c]
  have c': "lbl g3 = lbl g + 2 + labels_expr cond"
    "fresh_labels (lbl g + 2) (lbl g3) (code_expr cond ?g2)" by auto
  from "3.IH"[OF l1 l2 c b] code_stmts_emit(1)[OF b]
  have b': "lbl g4 = lbl g3 + labels_stmts body"
    "fresh_labels (lbl g3) (lbl g4) (code_stmts body g3)" by auto
  from c' b' l show ?case unfolding cd by (auto simp: fresh_labels_def)
next
  case (4 branches else_block g)
  let ?Lend = "str ''If_end_'' @ str_nat (lbl g + 1)"
  let ?g1 = "g\<lparr>lbl := lbl g + 1\<rparr>"
  have l1: "(?Lend, ?g1) = new_label (str ''If_end_'') g"
    by (simp add: new_label_def Let_def)
  from code_IfChain[OF "4.prems"] obtain g2 g3 where
    b: "gen_branches ?Lend branches ?g1 = Inr g2"
    and e: "(case else_block of None \<Rightarrow> Inr g2 | Some ss \<Rightarrow> gen_stmts ss g2) = Inr g3"
    and l: "lbl g' = lbl g3"
    and cd: "code_stmt (IfChain branches else_block) g =
               code_branches ?Lend branches ?g1 @
               (case else_block of None \<Rightarrow> [] | Some ss \<Rightarrow> code_stmts ss g2) @
               [?Lend @ str '':'']"
    by auto
  from "4.IH"(1)[OF l1 b]
  have b': "lbl g2 = lbl g + 1 + labels_branches branches"
    "fresh_labels (lbl g + 1) (lbl g2) (code_branches ?Lend branches ?g1)" by auto
  have e': "lbl g3 = lbl g2 + (case else_block of None \<Rightarrow> 0 | Some ss \<Rightarrow> labels_stmts ss)
     \<and> fresh_labels (lbl g2) (lbl g3) (case else_block of None \<Rightarrow> [] | Some ss \<Rightarrow> code_stmts ss g2)"
  proof (cases else_block)
    case None
    with e show ?thesis by simp
  next
    case (Some ss)
    with e have "gen_stmts ss g2 = Inr g3" by simp
    from "4.IH"(2)[OF l1 b Some this] Some show ?thesis by auto
  qed
  from b' e' l show ?case unfolding cd by (auto simp: fresh_labels_def)
next
  case (5 g)
  then show ?case by (simp add: code_stmts_Nil)
next
  case (6 s ss g)
  from code_stmts_Cons[OF "6.prems"] obtain g1 where s: "gen_stmt s g = Inr g1"
    and ss: "gen_stmts ss g1 = Inr g'"
    and cd: "code_stmts (s # ss) g = code_stmt s g @ code_stmts ss g1"
    by blast
  from "6.IH"(1)[OF s] "6.IH"(2)[OF s ss] show ?case unfolding cd
    by (auto simp: fresh_labels_def)
next
  case (7 Lend g)
  then show ?case by (simp add: code_branches_Nil)
next
  case (8 Lend cond blk bs g)
  let ?Lnext = "str ''If_next_'' @ str_nat (lbl g + 1)"
  let ?g1 = "g\<lparr>lbl := lbl g + 1\<rparr>"
  have l1: "(?Lnext, ?g1) = new_label (str ''If_next_'') g"
    by (simp add: new_label_def Let_def)
  from code_branches_Cons[OF "8.prems"] obtain g2 g3 where
    c: "gen_expr cond ?g1 = Inr g2"
    and b: "gen_stmts blk (emit (str ''  ifeq '' @ ?Lnext) g2) = Inr g3"
    and r: "gen_branches Lend bs (emit (?Lnext @ str '':'') (emit (str ''  goto '' @ Lend) g3)) = Inr g'"
    and cd: "code_branches Lend ((cond, blk) # bs) g =
               code_expr cond ?g1 @ [str ''  ifeq '' @ ?Lnext] @ code_stmts blk g2 @
               [str ''  goto '' @ Lend, ?Lnext @ str '':''] @ code_branches Lend bs g3"
    by auto
  from gen_expr_labels[OF c]
  have c': "lbl g2 = lbl g + 1 + labels_expr cond"
    "fresh_labels (lbl g + 1) (lbl g2) (code_expr cond ?g1)" by auto
  from "8.IH"(1)[OF l1 c b] code_stmts_emit(1)[OF b]
  have b': "lbl g3 = lbl g2 + labels_stmts blk"
    "fresh_labels (lbl g2) (lbl g3) (code_stmts blk g2)" by auto
  have e2: "emit (?Lnext @ str '':'') (emit (str ''  goto '' @ Lend) g3)
      = g3\<lparr>lines := lines g3 @ [str ''  goto '' @ Lend, ?Lnext @ str '':'']\<rparr>"
    by (simp add: emit_def)
  have cr: "code_branches Lend bs (emit (?Lnext @ str '':'') (emit (str ''  goto '' @ Lend) g3))
      = code_branches Lend bs g3"
    using code_branches_lines(1)[OF r[unfolded e2]] by (simp only: e2)
  have lr: "lbl (emit (?Lnext @ str '':'') (emit (str ''  goto '' @ Lend) g3)) = lbl g3"
    by simp
  from "8.IH"(2)[OF l1 c b r]
  have r': "lbl g' = lbl g3 + labels_branches bs"
    "fresh_labels (lbl g3) (lbl g') (code_branches Lend bs g3)"
    unfolding cr lr by blast+
  from c' b' r' show ?case unfolding cd by (auto simp: fresh_labels_def)
qed

lemma label_numbers_header [simp]: "label_numbers (header cls g) = []"
  by (simp add: header_def label_numbers_def label_line_def str_def)

lemma gen_labels:
  assumes "gen (Program ss) cls Codegen = Inr (out, g)"
  shows "lbl g = labels_stmts ss" and "fresh_labels 0 (lbl g) (lines g)"
    and "distinct (filter label_line (lines g))"
proof -
  let ?g0 = "Codegen\<lparr>lines := lines Codegen @ header cls Codegen\<rparr>"
  from assms obtain g1 where
    g1: "gen_stmts ss ?g0 = Inr g1"
    and g: "g = emit (str ''.end method'') (emit (str ''  return'') g1)"
    by (auto simp: gen_def Let_def split: sum.splits)
  have z: "lbl ?g0 = 0" "lines ?g0 = header cls Codegen"
    by (simp_all add: Codegen_def)
  from gen_stmt_labels(2)[OF g1] have l: "lbl g1 = labels_stmts ss"
    and f: "fresh_labels 0 (lbl g1) (code_stmts ss ?g0)"
    unfolding z by auto
  from gen_stmts_code(1)[OF g1] g
  have ls: "lines g = header cls Codegen @ code_stmts ss ?g0 @ [str ''  return'', str ''.end method'']"
    unfolding z by simp
  have e: "label_numbers [str ''  return'', str ''.end method''] = []"
    by (simp add: label_numbers_def label_line_def str_def)
  show "lbl g = labels_stmts ss" using l g by simp
  show fr: "fresh_labels 0 (lbl g) (lines g)"
    using f g e unfolding ls by (simp add: fresh_labels_def)
  then have "distinct (map label_number (filter label_line (lines g)))"
    by (simp add: fresh_labels_def label_numbers_def)
  then show "distinct (filter label_line (lines g))"
    by (simp add: distinct_map)
qed

lemma jmp_branch_taken: "jmp op = Some j \<Longrightarrow> branch_taken j x y = Some (holds op x y)"
  by (cases op) (auto simp: branch_taken_def str_def)

subsection \<open>Evaluation\<close>

text \<open>The definitions that evaluate the lexer, the parser and the generator on a concrete input.\<close>

lemmas lex_eval = lex_def TOKEN_REGEX_def TOK_def re_lit_def re_plus_def re_one_star_def str_def
  is_decimal_def decimal_value_def is_word_def is_id_start_def is_ws_def KW_def

lemmas parse_eval = fuel_def eval_nat_numeral with_cur_def cur_def eat_def py_int_def
  decimal_value_def

lemmas gen_eval = Codegen_def emit_def emit_iload_def emit_istore_def slot_of_def new_label_def
  str_int_def str_nat.simps

section \<open>Properties of the lexer\<close>

text \<open>
  Every match is a non-empty prefix of the rest of the input, and no pattern gives a kind
  that only the keyword table or the end of \<^verbatim>\<open>lex\<close> give.
\<close>

lemma re_plus_bound: "re_plus P s = Some n \<Longrightarrow> n \<le> length s"
  by (auto simp: re_plus_def length_takeWhile_le split: if_splits)

lemma re_one_star_bound: "re_one_star P Q s = Some n \<Longrightarrow> n \<le> length s"
  by (auto simp: re_one_star_def length_takeWhile_le split: if_splits list.splits)

lemma re_lit_bound: "re_lit l s = Some n \<Longrightarrow> n \<le> length s"
proof -
  assume "re_lit l s = Some n"
  hence "take (length l) s = str l" "n = length l"
    by (auto simp: re_lit_def split: if_splits)
  hence "length (take n s) = n" by (simp add: str_def)
  thus ?thesis by simp
qed

lemma alternation_bound:
  "alternation ps s = Some (k, n) \<Longrightarrow> (\<And>k p m. (k, p) \<in> set ps \<Longrightarrow> p s = Some m \<Longrightarrow> m \<le> length s)
     \<Longrightarrow> n \<le> length s"
  by (induction ps s rule: alternation.induct) (auto split: option.splits)

lemma TOKEN_REGEX_bound: "TOKEN_REGEX U s = Some (k, n) \<Longrightarrow> n \<le> length s"
  unfolding TOKEN_REGEX_def
  by (erule alternation_bound) (auto simp: TOK_def dest: re_plus_bound re_one_star_bound re_lit_bound)

lemma TOKEN_REGEX_kind:
  "TOKEN_REGEX U s = Some (k, n) \<Longrightarrow> k \<notin> {EOF, LET, PRINT, WHILE, IF, ELSE}"
  by (auto simp: TOKEN_REGEX_def TOK_def split: option.splits)

text \<open>
  An unmatched character ends every match before it: no pattern matches at it, and the
  match of a pattern on a text that goes on with it is its match on the text before it.
\<close>

lemma re_plus_cut: "\<not> P c \<Longrightarrow> re_plus P (r @ c # t) = re_plus P r"
  by (simp add: re_plus_def takeWhile_tail)

lemma re_one_star_cut:
  "\<not> Q c \<Longrightarrow> r \<noteq> [] \<Longrightarrow> re_one_star P Q (r @ c # t) = re_one_star P Q r"
  by (cases r) (simp_all add: re_one_star_def takeWhile_tail)

lemma re_one_star_stop: "\<not> P c \<Longrightarrow> re_one_star P Q (c # t) = None"
  by (simp add: re_one_star_def)

lemma re_lit_cut:
  assumes "c \<notin> set (str l)" "l \<noteq> []"
  shows "re_lit l (r @ c # t) = re_lit l r"
proof (cases "length l \<le> length r")
  case True
  thus ?thesis by (simp add: re_lit_def)
next
  case False
  hence "c \<in> set (take (length l) (r @ c # t))"
    by (cases "length l - length r") auto
  hence a: "take (length l) (r @ c # t) \<noteq> str l"
    using assms(1) by metis
  have "length (take (length l) r) \<noteq> length (str l)"
    using False by (simp add: str_def)
  hence "take (length l) r \<noteq> str l" by metis
  with a show ?thesis by (simp add: re_lit_def)
qed

lemma unmatched_chars:
  "unmatched U c \<Longrightarrow> c \<notin> {60, 62, 61, 33, 59, 40, 41, 123, 125, 43, 45, 42, 47}"
  by (auto simp: unmatched_def str_def)

lemma alternation_cong:
  "(\<And>k p. (k, p) \<in> set ps \<Longrightarrow> p s = p s') \<Longrightarrow> alternation ps s = alternation ps s'"
proof (induction ps)
  case Nil
  show ?case by simp
next
  case (Cons kp ps)
  obtain k p where kp: "kp = (k, p)" by (cases kp)
  have "p s = p s'" using Cons.prems[of k p] kp by simp
  moreover have "alternation ps s = alternation ps s'"
  proof (rule Cons.IH)
    fix k' p' assume "(k', p') \<in> set ps"
    hence "(k', p') \<in> set (kp # ps)" by simp
    thus "p' s = p' s'" by (rule Cons.prems)
  qed
  ultimately show ?case using kp by (cases "p s'") simp_all
qed

lemma alternation_None:
  "(\<And>k p. (k, p) \<in> set ps \<Longrightarrow> p s = None) \<Longrightarrow> alternation ps s = None"
  by (induction ps s rule: alternation.induct) (auto split: option.splits)

lemma TOKEN_REGEX_cut:
  assumes "unmatched U c" "r \<noteq> []"
  shows "TOKEN_REGEX U (r @ c # t) = TOKEN_REGEX U r"
  unfolding TOKEN_REGEX_def
  using assms unmatched_chars[OF assms(1)]
  by (intro alternation_cong)
     (auto simp: TOK_def re_plus_cut re_one_star_cut re_lit_cut unmatched_def str_def)

lemma re_plus_stop: "\<not> P c \<Longrightarrow> re_plus P (c # t) = None"
  by (simp add: re_plus_def)

lemma re_lit_stop: "c \<notin> set (str l) \<Longrightarrow> l \<noteq> [] \<Longrightarrow> re_lit l (c # t) = None"
  by (cases l) (auto simp: re_lit_def str_def)

lemma TOKEN_REGEX_stop:
  assumes "unmatched U c"
  shows "TOKEN_REGEX U (c # t) = None"
  unfolding TOKEN_REGEX_def
  using assms unmatched_chars[OF assms]
  by (intro alternation_None)
     (auto simp: TOK_def re_plus_stop re_one_star_stop re_lit_stop unmatched_def str_def)

lemma take_drop_cut:
  "n \<le> length xs \<Longrightarrow> take n (xs @ ys) = take n xs \<and> drop n (xs @ ys) = drop n xs @ ys"
  by simp

lemma finditer_cut:
  "unmatched U c \<Longrightarrow> finditer U (r @ c # t) = finditer U r @ finditer U t"
proof (induction U r rule: finditer.induct)
  case (1 U)
  thus ?case by (simp add: TOKEN_REGEX_stop)
next
  case (2 U a r)
  show ?case
  proof (cases "TOKEN_REGEX U (a # r)")
    case None
    hence "TOKEN_REGEX U ((a # r) @ c # t) = None"
      using TOKEN_REGEX_cut[OF 2(3), of "a # r" t] by simp
    thus ?thesis using None 2(1)[OF None 2(3)] by simp
  next
    case (Some kn)
    obtain k n where kn: "kn = (k, n)" by (cases kn)
    have s: "TOKEN_REGEX U ((a # r) @ c # t) = Some (k, n)"
      using TOKEN_REGEX_cut[OF 2(3), of "a # r" t] Some kn by simp
    have n: "n \<le> length (a # r)"
      using Some kn TOKEN_REGEX_bound by blast
    have ih: "finditer U (drop n (a # r) @ c # t) = finditer U (drop n (a # r)) @ finditer U t"
      using 2(2)[OF Some kn[symmetric] 2(3)] .
    have "finditer U ((a # r) @ c # t) = (k, take n ((a # r) @ c # t)) # finditer U (drop n ((a # r) @ c # t))"
      using s by simp
    also have "\<dots> = (k, take n (a # r)) # finditer U (drop n (a # r) @ c # t)"
      using take_drop_cut[OF n, of "c # t"] by simp
    finally show ?thesis using ih Some kn by simp
  qed
qed

lemma finditer_kind:
  "(k, v) \<in> set (finditer U s) \<Longrightarrow> k \<notin> {EOF, LET, PRINT, WHILE, IF, ELSE} \<and> v \<noteq> []"
proof (induction U s rule: finditer.induct)
  case (1 U)
  thus ?case by simp
next
  case (2 U c cs)
  show ?case
  proof (cases "TOKEN_REGEX U (c # cs)")
    case None
    thus ?thesis using 2 by simp
  next
    case (Some kn)
    obtain k' n where kn: "kn = (k', n)" by (cases kn)
    have "0 < n" using Some kn TOKEN_REGEX_positive by blast
    hence "take n (c # cs) \<noteq> []" by (cases n) auto
    moreover have "k' \<notin> {EOF, LET, PRINT, WHILE, IF, ELSE}"
      using Some kn TOKEN_REGEX_kind by blast
    ultimately show ?thesis
      using 2(2)[OF Some kn[symmetric]] 2(3) Some kn by auto
  qed
qed

lemma KW_kind: "KW v = Some k \<Longrightarrow> k \<noteq> EOF \<and> k \<noteq> WS \<and> k \<in> {LET, PRINT, WHILE, IF, ELSE}"
  by (auto simp: KW_def split: if_splits)

lemma lex_out_append: "lex_out (ms @ ms') = lex_out ms @ lex_out ms'"
  by (induction ms rule: lex_out.induct) (auto split: option.splits)

lemma lex_out_kind:
  "t \<in> set (lex_out ms) \<Longrightarrow> \<exists>k v. (k, v) \<in> set ms \<and> k \<noteq> WS \<and> tok_v t = v
       \<and> (tok_t t = k \<or> (k = ID \<and> KW v = Some (tok_t t)))"
  by (induction ms rule: lex_out.induct) (auto split: option.splits if_splits)

lemma lex_tokens:
  assumes "t \<in> set (lex_out (finditer U s))"
  shows "tok_t t \<noteq> EOF \<and> tok_t t \<noteq> WS \<and> tok_v t \<noteq> []"
proof -
  obtain k v where kv: "(k, v) \<in> set (finditer U s)" "k \<noteq> WS" "tok_v t = v"
      "tok_t t = k \<or> (k = ID \<and> KW v = Some (tok_t t))"
    using lex_out_kind[OF assms] by blast
  thus ?thesis using finditer_kind[OF kv(1)] KW_kind by auto
qed


lemma finditer_junk:
  "list_all (unmatched U) junk \<Longrightarrow> finditer U (junk @ t) = finditer U t"
  by (induction junk) (simp_all add: TOKEN_REGEX_stop)

lemma finditer_cut_junk:
  assumes "list_all (unmatched U) junk" "junk \<noteq> []"
  shows "finditer U (r @ junk @ t) = finditer U r @ finditer U t"
proof -
  obtain c junk' where j: "junk = c # junk'" using assms(2) by (cases junk) auto
  hence c: "unmatched U c" and j': "list_all (unmatched U) junk'" using assms(1) by auto
  have "finditer U (r @ c # (junk' @ t)) = finditer U r @ finditer U (junk' @ t)"
    by (rule finditer_cut[OF c])
  thus ?thesis using finditer_junk[OF j'] j by simp
qed
section \<open>The generator on the trees of the language\<close>

text \<open>
  The generator fails on no tree of the language, whatever its state, and on every other
  tree: its only failing steps are the unknown operator of a \<^verbatim>\<open>Bin\<close> node and the
  lookup of the operator of a \<^verbatim>\<open>Cmp\<close> node in \<^verbatim>\<open>jmp\<close>.
\<close>

lemma gen_expr_wf: "wf_expr e \<Longrightarrow> \<exists>g'. gen_expr e g = Inr g'"
proof (induction e arbitrary: g)
  case (IntE n)
  show ?case by simp
next
  case (Var name)
  show ?case by (simp split: prod.splits)
next
  case (Bin op a b)
  from Bin.prems have wa: "wf_expr a" and wb: "wf_expr b" by simp_all
  from Bin.IH(1)[OF wa] obtain g1 where g1: "gen_expr a g = Inr g1" by blast
  from Bin.IH(2)[OF wb] obtain g2 where g2: "gen_expr b g1 = Inr g2" by blast
  from Bin.prems g1 g2 show ?case by auto
next
  case (Cmp op a b)
  from Cmp.prems have wa: "wf_expr a" and wb: "wf_expr b" by simp_all
  from Cmp.IH(1)[OF wa] obtain g1 where g1: "gen_expr a g = Inr g1" by blast
  from Cmp.IH(2)[OF wb] obtain g2 where g2: "gen_expr b g1 = Inr g2" by blast
  from Cmp.prems have "\<exists>j. jmp op = Some j" by auto
  with g1 g2 show ?case by (auto split: prod.splits)
qed

lemma wf_gen_expr: "gen_expr e g = Inr g' \<Longrightarrow> wf_expr e"
proof (induction e arbitrary: g g')
  case (Bin op a b)
  from Bin.prems obtain g1 g2 where "gen_expr a g = Inr g1" "gen_expr b g1 = Inr g2"
    and "op = PLUS \<or> op = MINUS \<or> op = MUL \<or> op = DIV"
    by (auto split: sum.splits if_splits)
  thus ?case using Bin.IH by auto
next
  case (Cmp op a b)
  from Cmp.prems obtain g1 g2 j where "gen_expr a g = Inr g1" "gen_expr b g1 = Inr g2"
    and "jmp op = Some j"
    by (auto split: sum.splits prod.splits option.splits)
  moreover from this(3) have "op = LT \<or> op = LE \<or> op = GT \<or> op = GE \<or> op = EQEQ \<or> op = NE"
    by (cases op) simp_all
  ultimately show ?case using Cmp.IH by auto
qed simp_all

lemma gen_stmt_wf:
  "wf_stmt s \<Longrightarrow> \<exists>g'. gen_stmt s g = Inr g'"
  "wf_stmts ss \<Longrightarrow> \<exists>g'. gen_stmts ss g = Inr g'"
  "wf_branches bs \<Longrightarrow> \<exists>g'. gen_branches Lend bs g = Inr g'"
proof (induction s g and ss g and Lend bs g rule: gen_stmt_gen_stmts_gen_branches.induct)
  case (1 name e g)
  then obtain g1 where "gen_expr e g = Inr g1" using gen_expr_wf by fastforce
  thus ?case by (simp split: prod.splits)
next
  case (2 e g)
  then obtain g1 where
    "gen_expr e (emit (str ''  getstatic java/lang/System/out Ljava/io/PrintStream;'') g) = Inr g1"
    using gen_expr_wf by fastforce
  thus ?case by simp
next
  case (3 cond body g)
  obtain Ltest g1 where l1: "new_label (str ''Loop_test_'') g = (Ltest, g1)" by fastforce
  obtain Lend g2 where l2: "new_label (str ''Loop_end_'') g1 = (Lend, g2)" by fastforce
  from 3(2) obtain g3 where g3: "gen_expr cond (emit (Ltest @ str '':'') g2) = Inr g3"
    using gen_expr_wf by fastforce
  from 3(2) have "wf_stmts body" by simp
  from 3(1)[OF l1[symmetric] l2[symmetric] g3 this]
  obtain g4 where "gen_stmts body (emit (str ''  ifeq '' @ Lend) g3) = Inr g4" by blast
  with l1 l2 g3 show ?case by simp
next
  case (4 branches else_block g)
  obtain Lend g1 where l1: "new_label (str ''If_end_'') g = (Lend, g1)" by fastforce
  from 4(3) have wb: "wf_branches branches" by simp
  from 4(1)[OF l1[symmetric] wb] obtain g2 where g2: "gen_branches Lend branches g1 = Inr g2"
    by blast
  show ?case
  proof (cases else_block)
    case None
    with l1 g2 show ?thesis by simp
  next
    case (Some ss)
    with 4(3) have "wf_stmts ss" by simp
    from 4(2)[OF l1[symmetric] g2 Some this] obtain g3 where "gen_stmts ss g2 = Inr g3" by blast
    with l1 g2 Some show ?thesis by simp
  qed
next
  case (5 g)
  show ?case by simp
next
  case (6 s ss g)
  from 6(3) have ws: "wf_stmt s" and wss: "wf_stmts ss" by simp_all
  from 6(1)[OF ws] obtain g1 where g1: "gen_stmt s g = Inr g1" by blast
  from 6(2)[OF g1 wss] obtain g2 where "gen_stmts ss g1 = Inr g2" by blast
  with g1 show ?case by simp
next
  case (7 Lend g)
  show ?case by simp
next
  case (8 Lend cond blk bs g)
  obtain Lnext g1 where l1: "new_label (str ''If_next_'') g = (Lnext, g1)" by fastforce
  from 8(3) have wc: "wf_expr cond" and wb: "wf_stmts blk" and wbs: "wf_branches bs" by simp_all
  from gen_expr_wf[OF wc] obtain g2 where g2: "gen_expr cond g1 = Inr g2" by blast
  from 8(1)[OF l1[symmetric] g2 wb]
  obtain g3 where g3: "gen_stmts blk (emit (str ''  ifeq '' @ Lnext) g2) = Inr g3" by blast
  from 8(2)[OF l1[symmetric] g2 g3 wbs]
  obtain g4 where "gen_branches Lend bs
      (emit (Lnext @ str '':'') (emit (str ''  goto '' @ Lend) g3)) = Inr g4" by blast
  with l1 g2 g3 show ?case by simp
qed

lemma wf_gen_stmt:
  "gen_stmt s g = Inr g' \<Longrightarrow> wf_stmt s"
  "gen_stmts ss g = Inr g' \<Longrightarrow> wf_stmts ss"
  "gen_branches Lend bs g = Inr g' \<Longrightarrow> wf_branches bs"
proof (induction s g and ss g and Lend bs g arbitrary: g' and g' and g'
       rule: gen_stmt_gen_stmts_gen_branches.induct)
  case (1 name e g)
  thus ?case by (auto split: sum.splits dest: wf_gen_expr)
next
  case (2 e g)
  thus ?case by (auto split: sum.splits dest: wf_gen_expr)
next
  case (3 cond body g)
  obtain Ltest g1 where l1: "new_label (str ''Loop_test_'') g = (Ltest, g1)" by fastforce
  obtain Lend g2 where l2: "new_label (str ''Loop_end_'') g1 = (Lend, g2)" by fastforce
  from 3(2) l1 l2 obtain g3 g4 where g3: "gen_expr cond (emit (Ltest @ str '':'') g2) = Inr g3"
    and g4: "gen_stmts body (emit (str ''  ifeq '' @ Lend) g3) = Inr g4"
    by (auto split: sum.splits)
  from 3(1)[OF l1[symmetric] l2[symmetric] g3 g4] wf_gen_expr[OF g3] show ?case by simp
next
  case (4 branches else_block g)
  obtain Lend g1 where l1: "new_label (str ''If_end_'') g = (Lend, g1)" by fastforce
  from 4(3) l1 obtain g2 g3 where g2: "gen_branches Lend branches g1 = Inr g2"
    and g3: "(case else_block of None \<Rightarrow> Inr g2 | Some ss \<Rightarrow> gen_stmts ss g2) = Inr g3"
    by (auto split: sum.splits)
  from 4(1)[OF l1[symmetric] g2] have wb: "wf_branches branches" .
  show ?case
  proof (cases else_block)
    case None
    with wb show ?thesis by simp
  next
    case (Some ss)
    with g3 have "gen_stmts ss g2 = Inr g3" by simp
    from 4(2)[OF l1[symmetric] g2 Some this] wb Some show ?thesis by simp
  qed
next
  case (5 g)
  show ?case by simp
next
  case (6 s ss g)
  from 6(3) obtain g1 where g1: "gen_stmt s g = Inr g1" and g2: "gen_stmts ss g1 = Inr g'"
    by (auto split: sum.splits)
  from 6(1)[OF g1] 6(2)[OF g1 g2] show ?case by simp
next
  case (7 Lend g)
  show ?case by simp
next
  case (8 Lend cond blk bs g)
  obtain Lnext g1 where l1: "new_label (str ''If_next_'') g = (Lnext, g1)" by fastforce
  from 8(3) l1 obtain g2 g3 where g2: "gen_expr cond g1 = Inr g2"
    and g3: "gen_stmts blk (emit (str ''  ifeq '' @ Lnext) g2) = Inr g3"
    and g4: "gen_branches Lend bs
      (emit (Lnext @ str '':'') (emit (str ''  goto '' @ Lend) g3)) = Inr g'"
    by (auto split: sum.splits)
  from 8(1)[OF l1[symmetric] g2 g3] 8(2)[OF l1[symmetric] g2 g3 g4] wf_gen_expr[OF g2]
  show ?case by simp
qed

lemma gen_wf:
  "wf_stmts ss \<Longrightarrow> \<exists>out g'. gen (Program ss) cls g = Inr (out, g')"
proof -
  assume "wf_stmts ss"
  from gen_stmt_wf(2)[OF this] obtain g1
    where "gen_stmts ss (g\<lparr>lines := lines g @ header cls g\<rparr>) = Inr g1" by blast
  thus ?thesis by (simp add: gen_def Let_def)
qed


section \<open>Print statements\<close>

text \<open>
  C6, as stated: the code of a \<^verbatim>\<open>Print\<close> statement begins with the code of its
  expression, and the instructions of the print sequence all follow. It fails for
  \<^verbatim>\<open>print 1;\<close> compiled by a fresh generator: the statement's first line is the
  \<^verbatim>\<open>getstatic\<close> of the print sequence, and the expression's only line is the second.
\<close>

theorem C6_counterexample:
  "code_stmt (Print (IntE 1)) Codegen =
     [str ''  getstatic java/lang/System/out Ljava/io/PrintStream;'',
      str ''  sipush 1'',
      str ''  invokevirtual java/io/PrintStream/println(I)V'']
   \<and> code_expr (IntE 1) Codegen = [str ''  sipush 1'']
   \<and> take (length (code_expr (IntE 1) Codegen)) (code_stmt (Print (IntE 1)) Codegen)
       \<noteq> code_expr (IntE 1) Codegen"
  by (simp add: code_stmt_def code_expr_def Codegen_def emit_def str_def str_int_def str_nat.simps)

text \<open>
  C6, amended: whenever a \<^verbatim>\<open>Print\<close> statement is compiled, the lines it emits are the
  \<^verbatim>\<open>getstatic\<close> that pushes \<^verbatim>\<open>System.out\<close>, then the code of the printed expression
  (the same code the expression has on its own in that generator state), then the
  \<^verbatim>\<open>invokevirtual\<close> of \<^verbatim>\<open>println(I)V\<close>; nothing else is emitted, and the
  generator's slots and label counter are those left by the expression.
\<close>

theorem C6_print_code:
  assumes "gen_stmt (Print e) g = Inr g'"
  shows "\<exists>ge. gen_expr e g = Inr ge
           \<and> lines g' = lines g
               @ [str ''  getstatic java/lang/System/out Ljava/io/PrintStream;'']
               @ code_expr e g
               @ [str ''  invokevirtual java/io/PrintStream/println(I)V'']
           \<and> locals g' = locals ge \<and> next_slot g' = next_slot ge \<and> lbl g' = lbl ge"
proof -
  let ?gs = "str ''  getstatic java/lang/System/out Ljava/io/PrintStream;''"
  from assms obtain g1 where g1: "gen_expr e (emit ?gs g) = Inr g1"
    and g': "g' = emit (str ''  invokevirtual java/io/PrintStream/println(I)V'') g1"
    by (auto split: sum.splits)
  have em: "emit ?gs g = g\<lparr>lines := lines g @ [?gs]\<rparr>" by (simp add: emit_def)
  from g1 have l1: "lines g1 = lines g @ [?gs] @ code_expr e (emit ?gs g)"
    using gen_expr_code(1)[OF g1] by simp
  have c: "code_expr e g = code_expr e (emit ?gs g)"
    using code_expr_lines(1)[OF g1[unfolded em]] by (simp only: em)
  have ge: "gen_expr e g = Inr (g1\<lparr>lines := lines g @ code_expr e g\<rparr>)"
    using code_expr_lines(2)[OF g1[unfolded em]] .
  from ge l1 c g' show ?thesis by simp
qed

theorem C6_print_code_witness:
  "gen_stmt (Print (Var (str ''x''))) Codegen
     = Inr \<lparr>locals = [str ''x'' \<mapsto> 1], next_slot = 2,
            lines = [str ''  getstatic java/lang/System/out Ljava/io/PrintStream;'',
                     str ''  iload_1'',
                     str ''  invokevirtual java/io/PrintStream/println(I)V''],
            max_stack_guess = 32, lbl = 0\<rparr>
   \<and> (\<exists>ge. gen_expr (Var (str ''x'')) Codegen = Inr ge
           \<and> lines \<lparr>locals = [str ''x'' \<mapsto> 1], next_slot = 2,
            lines = [str ''  getstatic java/lang/System/out Ljava/io/PrintStream;'',
                     str ''  iload_1'',
                     str ''  invokevirtual java/io/PrintStream/println(I)V''],
            max_stack_guess = 32, lbl = 0\<rparr> = lines Codegen
               @ [str ''  getstatic java/lang/System/out Ljava/io/PrintStream;'']
               @ code_expr (Var (str ''x'')) Codegen
               @ [str ''  invokevirtual java/io/PrintStream/println(I)V''])"
proof -
  have h: "gen_stmt (Print (Var (str ''x''))) Codegen
     = Inr \<lparr>locals = [str ''x'' \<mapsto> 1], next_slot = 2,
            lines = [str ''  getstatic java/lang/System/out Ljava/io/PrintStream;'',
                     str ''  iload_1'',
                     str ''  invokevirtual java/io/PrintStream/println(I)V''],
            max_stack_guess = 32, lbl = 0\<rparr>"
    by (simp add: Codegen_def emit_def emit_iload_def slot_of_def str_def str_nat.simps)
  from C6_print_code[OF h] h show ?thesis by auto
qed

section \<open>Left-associative levels\<close>

lemma lex_chained_comparison:
  "lex U (str ''a < b == c'') =
     [Token ID (str ''a''), Token LT (str ''<''), Token ID (str ''b''), Token EQEQ (str ''==''),
      Token ID (str ''c''), Token EOF []]"
  by (simp add: lex_eval)

lemma expr_chained_comparison:
  "expr (fuel (lex U (str ''a < b == c''))) U (lex U (str ''a < b == c'')) 0 =
     Return (Cmp EQEQ (Cmp LT (Var (str ''a'')) (Var (str ''b''))) (Var (str ''c''))) 5"
  unfolding lex_chained_comparison by (simp add: parse_eval)

lemma code_chained_comparison:
  "code_expr (Cmp EQEQ (Cmp LT (Var (str ''a'')) (Var (str ''b''))) (Var (str ''c''))) Codegen =
     [str ''  iload_1'', str ''  iload_2'', str ''  if_icmplt Cmp_true_1'', str ''  iconst_0'',
      str ''  goto Cmp_end_2'', str ''Cmp_true_1:'', str ''  iconst_1'', str ''Cmp_end_2:'',
      str ''  iload_3'', str ''  if_icmpeq Cmp_true_3'', str ''  iconst_0'',
      str ''  goto Cmp_end_4'', str ''Cmp_true_3:'', str ''  iconst_1'', str ''Cmp_end_4:'']"
  by (simp add: code_expr_def gen_eval str_def)

text \<open>
  C2: every binary level parses its first operand and then the chain of operators and
  operands that follows, and returns the left-leaning tree folded over them, for any fuel,
  tokens and position (with the errors of the operands and of \<^verbatim>\<open>cur\<close> unchanged).
  A comparison is an operand like any other: \<^verbatim>\<open>a < b == c\<close> parses to
  \<open>Cmp EQEQ (Cmp LT a b) c\<close>, whose code computes the 0 or 1 of \<^verbatim>\<open>a < b\<close> down to
  its end label before it loads \<^verbatim>\<open>c\<close> and compares.
\<close>

theorem C2_left_assoc:
  "equality (Suc n) U toks i =
     bind (relational n U toks i) (\<lambda>first j.
     bind (chain n (\<lambda>m. relational m U) (\<lambda>k. k = EQEQ \<or> k = NE) toks j) (\<lambda>rest k.
       Return (fold_left Cmp first rest) k))
   \<and> relational (Suc n) U toks i =
     bind (additive n U toks i) (\<lambda>first j.
     bind (chain n (\<lambda>m. additive m U) (\<lambda>k. k = LT \<or> k = GT \<or> k = LE \<or> k = GE) toks j) (\<lambda>rest k.
       Return (fold_left Cmp first rest) k))
   \<and> additive (Suc n) U toks i =
     bind (term n U toks i) (\<lambda>first j.
     bind (chain n (\<lambda>m. term m U) (\<lambda>k. k = PLUS \<or> k = MINUS) toks j) (\<lambda>rest k.
       Return (fold_left Bin first rest) k))
   \<and> term (Suc n) U toks i =
     bind (factor n U toks i) (\<lambda>first j.
     bind (chain n (\<lambda>m. factor m U) (\<lambda>k. k = MUL \<or> k = DIV) toks j) (\<lambda>rest k.
       Return (fold_left Bin first rest) k))
   \<and> expr (fuel (lex U (str ''a < b == c''))) U (lex U (str ''a < b == c'')) 0 =
       Return (Cmp EQEQ (Cmp LT (Var (str ''a'')) (Var (str ''b''))) (Var (str ''c''))) 5
   \<and> code_expr (Cmp EQEQ (Cmp LT (Var (str ''a'')) (Var (str ''b''))) (Var (str ''c''))) Codegen =
     [str ''  iload_1'', str ''  iload_2'', str ''  if_icmplt Cmp_true_1'', str ''  iconst_0'',
      str ''  goto Cmp_end_2'', str ''Cmp_true_1:'', str ''  iconst_1'', str ''Cmp_end_2:'',
      str ''  iload_3'', str ''  if_icmpeq Cmp_true_3'', str ''  iconst_0'',
      str ''  goto Cmp_end_4'', str ''Cmp_true_3:'', str ''  iconst_1'', str ''Cmp_end_4:'']"
  using expr_chained_comparison code_chained_comparison
  by (simp add: equality_loop_chain relational_loop_chain additive_loop_chain term_loop_chain)

text \<open>The levels of \<^verbatim>\<open>a < b == c\<close>, one by one.\<close>

theorem C2_left_assoc_witness:
  "lex ascii_interp (str ''a < b == c'') =
     [Token ID (str ''a''), Token LT (str ''<''), Token ID (str ''b''), Token EQEQ (str ''==''),
      Token ID (str ''c''), Token EOF []]
   \<and> relational 5 ascii_interp (lex ascii_interp (str ''a < b == c'')) 0 =
       Return (Cmp LT (Var (str ''a'')) (Var (str ''b''))) 3
   \<and> chain 5 (\<lambda>m. relational m ascii_interp) (\<lambda>k. k = EQEQ \<or> k = NE)
         (lex ascii_interp (str ''a < b == c'')) 3 = Return [(EQEQ, Var (str ''c''))] 5
   \<and> equality 6 ascii_interp (lex ascii_interp (str ''a < b == c'')) 0 =
       Return (fold_left Cmp (Cmp LT (Var (str ''a'')) (Var (str ''b''))) [(EQEQ, Var (str ''c''))]) 5
   \<and> fold_left Cmp (Cmp LT (Var (str ''a'')) (Var (str ''b''))) [(EQEQ, Var (str ''c''))] =
       Cmp EQEQ (Cmp LT (Var (str ''a'')) (Var (str ''b''))) (Var (str ''c''))"
proof -
  have r: "relational 5 ascii_interp (lex ascii_interp (str ''a < b == c'')) 0 =
       Return (Cmp LT (Var (str ''a'')) (Var (str ''b''))) 3"
    unfolding lex_chained_comparison by (simp add: parse_eval)
  have c: "chain 5 (\<lambda>m. relational m ascii_interp) (\<lambda>k. k = EQEQ \<or> k = NE)
         (lex ascii_interp (str ''a < b == c'')) 3 = Return [(EQEQ, Var (str ''c''))] 5"
    unfolding lex_chained_comparison by (simp add: parse_eval)
  have "equality (Suc 5) ascii_interp (lex ascii_interp (str ''a < b == c'')) 0 =
       Return (fold_left Cmp (Cmp LT (Var (str ''a'')) (Var (str ''b''))) [(EQEQ, Var (str ''c''))]) 5"
    using C2_left_assoc[of 5 ascii_interp "lex ascii_interp (str ''a < b == c'')" 0]
    by (simp only: r c bind_simps)
  moreover have "Suc 5 = 6" by simp
  ultimately show ?thesis using r c lex_chained_comparison[of ascii_interp] by simp
qed

section \<open>Slot allocation\<close>

lemma lex_let_x:
  "lex U (str ''let x = x + 1;'') =
     [Token LET (str ''let''), Token ID (str ''x''), Token EQ (str ''=''), Token ID (str ''x''),
      Token PLUS (str ''+''), Token INT' (str ''1''), Token SEMIC (str '';''), Token EOF []]"
  by (simp add: lex_eval)

lemma parse_let_x:
  "parse U (str ''let x = x + 1;'') =
     Return (Program [LetS (str ''x'') (Bin PLUS (Var (str ''x'')) (IntE 1))]) 7"
  unfolding parse_def lex_let_x by (auto simp add: program_def parse_eval str_def)

lemma gen_let_x:
  "gen (Program [LetS (str ''x'') (Bin PLUS (Var (str ''x'')) (IntE 1))]) cls Codegen =
     Inr (join [10] (header cls Codegen @
            [str ''  iload_1'', str ''  sipush 1'', str ''  iadd'', str ''  istore_1'',
             str ''  return'', str ''.end method'']),
          \<lparr>locals = [str ''x'' \<mapsto> 1], next_slot = 2,
           lines = header cls Codegen @
            [str ''  iload_1'', str ''  sipush 1'', str ''  iadd'', str ''  istore_1'',
             str ''  return'', str ''.end method''],
           max_stack_guess = 32, lbl = 0\<rparr>)"
  by (simp add: gen_def Let_def gen_eval header_def str_def)

lemma gen_slots:
  assumes "gen (Program ss) cls Codegen = Inr (text, g)"
  shows "same_slots g (slots_after (names_stmts ss) Codegen)"
proof -
  from assms obtain g1 where
    g1: "gen_stmts ss (Codegen\<lparr>lines := lines Codegen @ header cls Codegen\<rparr>) = Inr g1"
    and g: "g = emit (str ''.end method'') (emit (str ''  return'') g1)"
    by (auto simp: gen_def Let_def split: sum.splits)
  from gen_stmt_slots(2)[OF g1, of Codegen] g show ?thesis by simp
qed

text \<open>
  C1: after a program is compiled by a fresh generator, the symbol table maps the distinct
  variable names, in the order of their first reference in the depth-first, left-to-right
  traversal, to the slots 1, 2, 3, ... and \<^verbatim>\<open>next_slot\<close> is the next one, so no two
  names share a slot; whatever the generator's state, compiling statements keeps every
  assignment made before (no slot is freed or given to another name). Compiling
  \<^verbatim>\<open>let x = x + 1;\<close> succeeds: the read loads slot 1 and the store writes slot 1.
\<close>

theorem C1_first_reference_order:
  "(gen (Program ss) cls Codegen = Inr (text, g) \<longrightarrow>
      locals g = map_of (zip (first_refs (names_stmts ss))
                             [1..<1 + length (first_refs (names_stmts ss))])
      \<and> next_slot g = 1 + length (first_refs (names_stmts ss))
      \<and> (\<forall>x y k. locals g x = Some k \<and> locals g y = Some k \<longrightarrow> x = y))
   \<and> (gen_stmts ss g0 = Inr g1 \<longrightarrow> locals g0 \<subseteq>\<^sub>m locals g1)
   \<and> compile_to_jasmin U (str ''let x = x + 1;'') cls =
       Inr (join [10] (header cls Codegen @
              [str ''  iload_1'', str ''  sipush 1'', str ''  iadd'', str ''  istore_1'',
               str ''  return'', str ''.end method'']))"
proof (intro conjI impI)
  assume a: "gen (Program ss) cls Codegen = Inr (text, g)"
  let ?fs = "first_refs (names_stmts ss)"
  from gen_slots[OF a] slots_after_fresh[of "names_stmts ss"]
  show l: "locals g = map_of (zip ?fs [1..<1 + length ?fs])"
    and "next_slot g = 1 + length ?fs"
    by (simp_all add: same_slots_def)
  show "\<forall>x y k. locals g x = Some k \<and> locals g y = Some k \<longrightarrow> x = y"
  proof (intro allI impI)
    fix x y k
    assume xy: "locals g x = Some k \<and> locals g y = Some k"
    define Z where "Z = zip ?fs [1..<1 + length ?fs]"
    have "distinct (map snd Z)"
      unfolding Z_def by (simp only: map_snd_zip length_upt add_diff_cancel_left' distinct_upt)
    then have inj: "inj_on snd (set Z)"
      by (simp only: distinct_map)
    from xy l have mx: "(x, k) \<in> set Z" and my: "(y, k) \<in> set Z"
      unfolding Z_def by (auto dest: map_of_SomeD)
    from inj_onD[OF inj _ mx my] show "x = y" by simp
  qed
next
  assume "gen_stmts ss g0 = Inr g1"
  from gen_stmt_slots(2)[OF this, of g0] slots_after_mono[of g0 "names_stmts ss"]
  show "locals g0 \<subseteq>\<^sub>m locals g1" by (simp add: same_slots_def)
next
  show "compile_to_jasmin U (str ''let x = x + 1;'') cls =
       Inr (join [10] (header cls Codegen @
              [str ''  iload_1'', str ''  sipush 1'', str ''  iadd'', str ''  istore_1'',
               str ''  return'', str ''.end method'']))"
    by (simp add: compile_to_jasmin_def parse_let_x gen_let_x)
qed

text \<open>
  The program \<^verbatim>\<open>let y = x; let x = y;\<close>: \<^verbatim>\<open>x\<close> is referenced first, by the read,
  and gets slot 1; \<^verbatim>\<open>y\<close> gets slot 2.
\<close>

theorem C1_first_reference_order_witness:
  "\<exists>text g.
     gen (Program [LetS (str ''y'') (Var (str ''x'')), LetS (str ''x'') (Var (str ''y''))])
         (str ''Main'') Codegen = Inr (text, g)
     \<and> first_refs (names_stmts [LetS (str ''y'') (Var (str ''x'')), LetS (str ''x'') (Var (str ''y''))])
         = [str ''x'', str ''y'']
     \<and> locals g = [str ''x'' \<mapsto> 1, str ''y'' \<mapsto> 2]
     \<and> next_slot g = 3
     \<and> drop 12 (lines g) = [str ''  iload_1'', str ''  istore_2'', str ''  iload_2'',
                             str ''  istore_1'', str ''  return'', str ''.end method'']"
proof -
  let ?ss = "[LetS (str ''y'') (Var (str ''x'')), LetS (str ''x'') (Var (str ''y''))]"
  have "\<exists>out g. gen (Program ?ss) (str ''Main'') Codegen = Inr (out, g)
    \<and> drop 12 (lines g) = [str ''  iload_1'', str ''  istore_2'', str ''  iload_2'',
                             str ''  istore_1'', str ''  return'', str ''.end method'']"
    by (simp add: gen_def Let_def gen_eval header_def str_def)
  then obtain out g where h: "gen (Program ?ss) (str ''Main'') Codegen = Inr (out, g)"
    and l: "drop 12 (lines g) = [str ''  iload_1'', str ''  istore_2'', str ''  iload_2'',
                             str ''  istore_1'', str ''  return'', str ''.end method'']"
    by blast
  have f: "first_refs (names_stmts ?ss) = [str ''x'', str ''y'']"
    by (simp add: str_def)
  have u: "[1..<1 + 2] = [1::nat, 2]" by code_simp
  from C1_first_reference_order[of ?ss "str ''Main''" out g] h
  have "locals g = map_of (zip (first_refs (names_stmts ?ss)) [1..<1 + length (first_refs (names_stmts ?ss))])"
    and n: "next_slot g = 1 + length (first_refs (names_stmts ?ss))"
    by blast+
  then have "locals g = map_of (zip [str ''x'', str ''y''] [1..<1 + 2])"
    unfolding f by simp
  then have "locals g = [str ''x'' \<mapsto> 1, str ''y'' \<mapsto> 2]"
    unfolding u by (simp add: fun_eq_iff str_def)
  moreover from n have "next_slot g = 3" unfolding f by simp
  ultimately show ?thesis using h f l by blast
qed
section \<open>Comparisons\<close>

text \<open>
  C3: every \<^verbatim>\<open>Cmp\<close> node over one of the six comparison operators and operands of the
  language is compiled, whatever the state of the generator, and its code is the code of the
  left operand, the code of the right operand, the conditional branch of the operator to the
  true label (the branch the target machine takes iff the comparison holds),
  \<^verbatim>\<open>iconst_0\<close>, the jump to the end label, the true label with \<^verbatim>\<open>iconst_1\<close>, and the
  end label. The two labels carry the next two values of the counter after the operands, the
  node takes two labels more than its operands, and every counter value that the node
  consumes numbers exactly one label definition of its code. No other \<^verbatim>\<open>Cmp\<close> node is
  compiled. Every program of the language is compiled by a fresh generator, and no label is
  defined twice in the output.
\<close>

theorem C3_cmp_code:
  "(wf_expr (Cmp op a b) \<longrightarrow>
      (\<exists>g1 g2 j g'. gen_expr a g = Inr g1 \<and> gen_expr b g1 = Inr g2 \<and> jmp op = Some j
         \<and> (\<forall>x y. branch_taken j x y = Some (holds op x y))
         \<and> gen_expr (Cmp op a b) g = Inr g'
         \<and> code_expr (Cmp op a b) g = code_expr a g @ code_expr b g1 @
               [str ''  '' @ j @ str '' '' @ str ''Cmp_true_'' @ str_nat (lbl g2 + 1),
                str ''  iconst_0'',
                str ''  goto '' @ str ''Cmp_end_'' @ str_nat (lbl g2 + 2),
                str ''Cmp_true_'' @ str_nat (lbl g2 + 1) @ str '':'',
                str ''  iconst_1'',
                str ''Cmp_end_'' @ str_nat (lbl g2 + 2) @ str '':'']
         \<and> lbl g' = lbl g2 + 2
         \<and> lbl g' = lbl g + labels_expr a + labels_expr b + 2
         \<and> fresh_labels (lbl g) (lbl g') (code_expr (Cmp op a b) g)))
   \<and> (gen_expr (Cmp op a b) g = Inr g'' \<longrightarrow> wf_expr (Cmp op a b))
   \<and> (wf_stmts ss \<longrightarrow>
        (\<exists>out gf. gen (Program ss) cls Codegen = Inr (out, gf)
           \<and> distinct (filter label_line (lines gf)) \<and> fresh_labels 0 (lbl gf) (lines gf)))"
proof (intro conjI impI)
  assume w: "wf_expr (Cmp op a b)"
  from gen_expr_wf[OF w] obtain g' where h: "gen_expr (Cmp op a b) g = Inr g'" by blast
  from code_Cmp[OF h] obtain g1 g2 j where a: "gen_expr a g = Inr g1"
    and b: "gen_expr b g1 = Inr g2" and j: "jmp op = Some j" and l: "lbl g' = lbl g2 + 2"
    and c: "code_expr (Cmp op a b) g = code_expr a g @ code_expr b g1 @
               [str ''  '' @ j @ str '' '' @ str ''Cmp_true_'' @ str_nat (lbl g2 + 1),
                str ''  iconst_0'',
                str ''  goto '' @ str ''Cmp_end_'' @ str_nat (lbl g2 + 2),
                str ''Cmp_true_'' @ str_nat (lbl g2 + 1) @ str '':'',
                str ''  iconst_1'',
                str ''Cmp_end_'' @ str_nat (lbl g2 + 2) @ str '':'']"
    by blast
  from gen_expr_labels[OF h]
  have n: "lbl g' = lbl g + labels_expr a + labels_expr b + 2"
    and f: "fresh_labels (lbl g) (lbl g') (code_expr (Cmp op a b) g)"
    by auto
  from a b j l c h n f jmp_branch_taken[OF j]
  show "\<exists>g1 g2 j g'. gen_expr a g = Inr g1 \<and> gen_expr b g1 = Inr g2 \<and> jmp op = Some j
         \<and> (\<forall>x y. branch_taken j x y = Some (holds op x y))
         \<and> gen_expr (Cmp op a b) g = Inr g'
         \<and> code_expr (Cmp op a b) g = code_expr a g @ code_expr b g1 @
               [str ''  '' @ j @ str '' '' @ str ''Cmp_true_'' @ str_nat (lbl g2 + 1),
                str ''  iconst_0'',
                str ''  goto '' @ str ''Cmp_end_'' @ str_nat (lbl g2 + 2),
                str ''Cmp_true_'' @ str_nat (lbl g2 + 1) @ str '':'',
                str ''  iconst_1'',
                str ''Cmp_end_'' @ str_nat (lbl g2 + 2) @ str '':'']
         \<and> lbl g' = lbl g2 + 2
         \<and> lbl g' = lbl g + labels_expr a + labels_expr b + 2
         \<and> fresh_labels (lbl g) (lbl g') (code_expr (Cmp op a b) g)"
    by blast
next
  assume "gen_expr (Cmp op a b) g = Inr g''"
  thus "wf_expr (Cmp op a b)" by (rule wf_gen_expr)
next
  assume "wf_stmts ss"
  from gen_wf[OF this] obtain out gf where h: "gen (Program ss) cls Codegen = Inr (out, gf)"
    by blast
  from gen_labels(3)[OF h] gen_labels(2)[OF h] h
  show "\<exists>out gf. gen (Program ss) cls Codegen = Inr (out, gf)
           \<and> distinct (filter label_line (lines gf)) \<and> fresh_labels 0 (lbl gf) (lines gf)"
    by blast
qed

text \<open>
  The comparison \<^verbatim>\<open>x >= 1\<close> after one label has been minted, and the instruction of
  each of the six operators.
\<close>

theorem C3_cmp_code_witness:
  "wf_expr (Cmp GE (Var (str ''x'')) (IntE 1))
   \<and> gen_expr (Cmp GE (Var (str ''x'')) (IntE 1)) (Codegen\<lparr>lbl := 1\<rparr>) =
     Inr \<lparr>locals = [str ''x'' \<mapsto> 1], next_slot = 2,
          lines = [str ''  iload_1'', str ''  sipush 1'', str ''  if_icmpge Cmp_true_2'',
                   str ''  iconst_0'', str ''  goto Cmp_end_3'', str ''Cmp_true_2:'',
                   str ''  iconst_1'', str ''Cmp_end_3:''],
          max_stack_guess = 32, lbl = 3\<rparr>
   \<and> map jmp [LT, LE, GT, GE, EQEQ, NE] =
       [Some (str ''if_icmplt''), Some (str ''if_icmple''), Some (str ''if_icmpgt''),
        Some (str ''if_icmpge''), Some (str ''if_icmpeq''), Some (str ''if_icmpne'')]
   \<and> branch_taken (str ''if_icmpge'') 1 1 = Some True
   \<and> label_numbers [str ''  iload_1'', str ''  sipush 1'', str ''  if_icmpge Cmp_true_2'',
                   str ''  iconst_0'', str ''  goto Cmp_end_3'', str ''Cmp_true_2:'',
                   str ''  iconst_1'', str ''Cmp_end_3:''] = [2, 3]
   \<and> fresh_labels 1 3 (code_expr (Cmp GE (Var (str ''x'')) (IntE 1)) (Codegen\<lparr>lbl := 1\<rparr>))"
proof -
  let ?G = "\<lparr>locals = [str ''x'' \<mapsto> 1], next_slot = 2,
          lines = [str ''  iload_1'', str ''  sipush 1'', str ''  if_icmpge Cmp_true_2'',
                   str ''  iconst_0'', str ''  goto Cmp_end_3'', str ''Cmp_true_2:'',
                   str ''  iconst_1'', str ''Cmp_end_3:''],
          max_stack_guess = 32, lbl = 3\<rparr>"
  have w: "wf_expr (Cmp GE (Var (str ''x'')) (IntE 1))" by simp
  have h: "gen_expr (Cmp GE (Var (str ''x'')) (IntE 1)) (Codegen\<lparr>lbl := 1\<rparr>) = Inr ?G"
    by (simp add: gen_eval str_def)
  have n: "label_numbers [str ''  iload_1'', str ''  sipush 1'', str ''  if_icmpge Cmp_true_2'',
                   str ''  iconst_0'', str ''  goto Cmp_end_3'', str ''Cmp_true_2:'',
                   str ''  iconst_1'', str ''Cmp_end_3:''] = [2, 3]"
    by (simp add: label_numbers_def label_line_def label_number_def is_digit_def
          nat_of_digits_def str_def)
  from C3_cmp_code[of GE "Var (str ''x'')" "IntE 1" "Codegen\<lparr>lbl := 1\<rparr>"] w
  obtain g' where "gen_expr (Cmp GE (Var (str ''x'')) (IntE 1)) (Codegen\<lparr>lbl := 1\<rparr>) = Inr g'"
    and "fresh_labels (lbl (Codegen\<lparr>lbl := 1\<rparr>)) (lbl g')
          (code_expr (Cmp GE (Var (str ''x'')) (IntE 1)) (Codegen\<lparr>lbl := 1\<rparr>))"
    by blast
  with h have "fresh_labels (lbl (Codegen\<lparr>lbl := 1\<rparr>)) (lbl ?G)
          (code_expr (Cmp GE (Var (str ''x'')) (IntE 1)) (Codegen\<lparr>lbl := 1\<rparr>))"
    by simp
  then have "fresh_labels 1 3 (code_expr (Cmp GE (Var (str ''x'')) (IntE 1)) (Codegen\<lparr>lbl := 1\<rparr>))"
    by simp
  moreover have "branch_taken (str ''if_icmpge'') 1 1 = Some True"
    by (simp add: branch_taken_def str_def)
  ultimately show ?thesis using h n by simp
qed

section \<open>Loops\<close>

text \<open>
  C5: whenever a \<^verbatim>\<open>While\<close> node is compiled, its code is the test label, the code
  of the condition, \<^verbatim>\<open>ifeq\<close> (the target machine's branch on zero, the encoding of
  false) to the end label, the code of the body statements in order, the jump back to the
  test label, and the end label. The test and end labels carry the next two values of the
  counter, minted before the condition is compiled; the loop takes two labels more than its
  condition and body, and every counter value it consumes numbers exactly one label
  definition of its code.
\<close>

theorem C5_while_code:
  "gen_stmt (While cond body) g = Inr g' \<longrightarrow>
     (\<exists>g3 g4.
        gen_expr cond (emit (str ''Loop_test_'' @ str_nat (lbl g + 1) @ str '':'') (g\<lparr>lbl := lbl g + 2\<rparr>)) = Inr g3
        \<and> gen_stmts body (emit (str ''  ifeq '' @ str ''Loop_end_'' @ str_nat (lbl g + 2)) g3) = Inr g4
        \<and> code_stmt (While cond body) g =
               [str ''Loop_test_'' @ str_nat (lbl g + 1) @ str '':''] @
               code_expr cond (g\<lparr>lbl := lbl g + 2\<rparr>) @
               [str ''  ifeq '' @ str ''Loop_end_'' @ str_nat (lbl g + 2)] @
               code_stmts body g3 @
               [str ''  goto '' @ str ''Loop_test_'' @ str_nat (lbl g + 1),
                str ''Loop_end_'' @ str_nat (lbl g + 2) @ str '':''])
     \<and> code_stmts [] g = []
     \<and> (\<forall>s ss g5. gen_stmts (s # ss) g = Inr g5 \<longrightarrow>
           (\<exists>g1. gen_stmt s g = Inr g1 \<and> gen_stmts ss g1 = Inr g5
                \<and> code_stmts (s # ss) g = code_stmt s g @ code_stmts ss g1))
     \<and> lbl g' = lbl g + 2 + labels_expr cond + labels_stmts body
     \<and> fresh_labels (lbl g) (lbl g') (code_stmt (While cond body) g)"
proof (intro impI conjI allI)
  assume h: "gen_stmt (While cond body) g = Inr g'"
  from code_While[OF h]
  show "\<exists>g3 g4.
        gen_expr cond (emit (str ''Loop_test_'' @ str_nat (lbl g + 1) @ str '':'') (g\<lparr>lbl := lbl g + 2\<rparr>)) = Inr g3
        \<and> gen_stmts body (emit (str ''  ifeq '' @ str ''Loop_end_'' @ str_nat (lbl g + 2)) g3) = Inr g4
        \<and> code_stmt (While cond body) g =
               [str ''Loop_test_'' @ str_nat (lbl g + 1) @ str '':''] @
               code_expr cond (g\<lparr>lbl := lbl g + 2\<rparr>) @
               [str ''  ifeq '' @ str ''Loop_end_'' @ str_nat (lbl g + 2)] @
               code_stmts body g3 @
               [str ''  goto '' @ str ''Loop_test_'' @ str_nat (lbl g + 1),
                str ''Loop_end_'' @ str_nat (lbl g + 2) @ str '':'']"
    by blast
  from gen_stmt_labels(1)[OF h]
  show "lbl g' = lbl g + 2 + labels_expr cond + labels_stmts body"
    and "fresh_labels (lbl g) (lbl g') (code_stmt (While cond body) g)"
    by auto
next
  show "code_stmts [] g = []" by (rule code_stmts_Nil)
next
  fix s ss g5
  assume "gen_stmts (s # ss) g = Inr g5"
  from code_stmts_Cons[OF this]
  show "\<exists>g1. gen_stmt s g = Inr g1 \<and> gen_stmts ss g1 = Inr g5
                \<and> code_stmts (s # ss) g = code_stmt s g @ code_stmts ss g1" .
qed

text \<open>The loop of \<^verbatim>\<open>while (x < 3) { print x; let x = x + 1; }\<close>.\<close>

theorem C5_while_code_witness:
  "code_stmt (While (Cmp LT (Var (str ''x'')) (IntE 3))
                [Print (Var (str ''x'')), LetS (str ''x'') (Bin PLUS (Var (str ''x'')) (IntE 1))])
      Codegen =
     [str ''Loop_test_1:'', str ''  iload_1'', str ''  sipush 3'', str ''  if_icmplt Cmp_true_3'',
      str ''  iconst_0'', str ''  goto Cmp_end_4'', str ''Cmp_true_3:'', str ''  iconst_1'',
      str ''Cmp_end_4:'', str ''  ifeq Loop_end_2'',
      str ''  getstatic java/lang/System/out Ljava/io/PrintStream;'', str ''  iload_1'',
      str ''  invokevirtual java/io/PrintStream/println(I)V'',
      str ''  iload_1'', str ''  sipush 1'', str ''  iadd'', str ''  istore_1'',
      str ''  goto Loop_test_1'', str ''Loop_end_2:'']
   \<and> fresh_labels 0 4 (code_stmt (While (Cmp LT (Var (str ''x'')) (IntE 3))
                [Print (Var (str ''x'')), LetS (str ''x'') (Bin PLUS (Var (str ''x'')) (IntE 1))])
      Codegen)"
proof -
  let ?w = "While (Cmp LT (Var (str ''x'')) (IntE 3))
                [Print (Var (str ''x'')), LetS (str ''x'') (Bin PLUS (Var (str ''x'')) (IntE 1))]"
  let ?code = "[str ''Loop_test_1:'', str ''  iload_1'', str ''  sipush 3'', str ''  if_icmplt Cmp_true_3'',
      str ''  iconst_0'', str ''  goto Cmp_end_4'', str ''Cmp_true_3:'', str ''  iconst_1'',
      str ''Cmp_end_4:'', str ''  ifeq Loop_end_2'',
      str ''  getstatic java/lang/System/out Ljava/io/PrintStream;'', str ''  iload_1'',
      str ''  invokevirtual java/io/PrintStream/println(I)V'',
      str ''  iload_1'', str ''  sipush 1'', str ''  iadd'', str ''  istore_1'',
      str ''  goto Loop_test_1'', str ''Loop_end_2:'']"
  have h: "gen_stmt ?w Codegen =
      Inr \<lparr>locals = [str ''x'' \<mapsto> 1], next_slot = 2, lines = ?code, max_stack_guess = 32, lbl = 4\<rparr>"
    by (simp add: gen_eval str_def)
  then have c: "code_stmt ?w Codegen = ?code"
    by (simp add: code_stmt_def Codegen_def)
  from C5_while_code[of "Cmp LT (Var (str ''x'')) (IntE 3)"
      "[Print (Var (str ''x'')), LetS (str ''x'') (Bin PLUS (Var (str ''x'')) (IntE 1))]" Codegen] h
  have "fresh_labels (lbl Codegen)
      (lbl \<lparr>locals = [str ''x'' \<mapsto> 1], next_slot = 2, lines = ?code, max_stack_guess = 32, lbl = 4\<rparr>)
      (code_stmt ?w Codegen)"
    by blast
  then have "fresh_labels 0 4 (code_stmt ?w Codegen)"
    by (simp add: Codegen_def)
  with c show ?thesis by simp
qed
section \<open>If chains\<close>

text \<open>
  C4: every \<^verbatim>\<open>IfChain\<close> node of the language, with or without an else body, is
  compiled, whatever the state of the generator. One end label is minted first, with the next
  value of the counter, and is passed to every branch; the code of the node is the code of
  the branches, then the code of the else body if there is one, with no jump after it, then
  the end label. The code of the branches is, for each (condition, body) pair in order: the
  code of the condition, \<^verbatim>\<open>ifeq\<close> to a next label minted for this branch, the code of
  the body, the jump to the shared end label, and the next label. The chain takes one label
  and one more per branch beyond those of its conditions and bodies, and every counter value
  it consumes numbers exactly one label definition of its code. No other \<^verbatim>\<open>IfChain\<close>
  node is compiled.
\<close>

theorem C4_if_chain_code:
  "(wf_stmt (IfChain branches else_block) \<longrightarrow>
      (\<exists>g2 g3 g'.
         gen_branches (str ''If_end_'' @ str_nat (lbl g + 1)) branches (g\<lparr>lbl := lbl g + 1\<rparr>) = Inr g2
         \<and> (case else_block of None \<Rightarrow> Inr g2 | Some ss \<Rightarrow> gen_stmts ss g2) = Inr g3
         \<and> gen_stmt (IfChain branches else_block) g = Inr g'
         \<and> code_stmt (IfChain branches else_block) g =
               code_branches (str ''If_end_'' @ str_nat (lbl g + 1)) branches (g\<lparr>lbl := lbl g + 1\<rparr>) @
               (case else_block of None \<Rightarrow> [] | Some ss \<Rightarrow> code_stmts ss g2) @
               [str ''If_end_'' @ str_nat (lbl g + 1) @ str '':'']
         \<and> lbl g' = lbl g + 1 + labels_branches branches
                   + (case else_block of None \<Rightarrow> 0 | Some ss \<Rightarrow> labels_stmts ss)
         \<and> fresh_labels (lbl g) (lbl g') (code_stmt (IfChain branches else_block) g)))
   \<and> (gen_stmt (IfChain branches else_block) g = Inr h' \<longrightarrow> wf_stmt (IfChain branches else_block))
   \<and> code_branches Lend [] g = []
   \<and> (wf_branches ((cond, blk) # bs) \<longrightarrow>
      (\<exists>g2 g3 g''.
         gen_expr cond (g\<lparr>lbl := lbl g + 1\<rparr>) = Inr g2
         \<and> gen_stmts blk (emit (str ''  ifeq '' @ str ''If_next_'' @ str_nat (lbl g + 1)) g2) = Inr g3
         \<and> gen_branches Lend bs
              (emit (str ''If_next_'' @ str_nat (lbl g + 1) @ str '':'') (emit (str ''  goto '' @ Lend) g3)) = Inr g''
         \<and> gen_branches Lend ((cond, blk) # bs) g = Inr g''
         \<and> code_branches Lend ((cond, blk) # bs) g =
               code_expr cond (g\<lparr>lbl := lbl g + 1\<rparr>) @
               [str ''  ifeq '' @ str ''If_next_'' @ str_nat (lbl g + 1)] @
               code_stmts blk g2 @
               [str ''  goto '' @ Lend, str ''If_next_'' @ str_nat (lbl g + 1) @ str '':''] @
               code_branches Lend bs g3
         \<and> lbl g'' = lbl g + 1 + labels_expr cond + labels_stmts blk + labels_branches bs))"
proof (intro conjI impI)
  assume w: "wf_stmt (IfChain branches else_block)"
  from gen_stmt_wf(1)[OF w] obtain g' where h: "gen_stmt (IfChain branches else_block) g = Inr g'"
    by blast
  from code_IfChain[OF h] obtain g2 g3 where
    a: "gen_branches (str ''If_end_'' @ str_nat (lbl g + 1)) branches (g\<lparr>lbl := lbl g + 1\<rparr>) = Inr g2"
    and b: "(case else_block of None \<Rightarrow> Inr g2 | Some ss \<Rightarrow> gen_stmts ss g2) = Inr g3"
    and c: "code_stmt (IfChain branches else_block) g =
               code_branches (str ''If_end_'' @ str_nat (lbl g + 1)) branches (g\<lparr>lbl := lbl g + 1\<rparr>) @
               (case else_block of None \<Rightarrow> [] | Some ss \<Rightarrow> code_stmts ss g2) @
               [str ''If_end_'' @ str_nat (lbl g + 1) @ str '':'']"
    by blast
  from gen_stmt_labels(1)[OF h]
  have n: "lbl g' = lbl g + 1 + labels_branches branches
                   + (case else_block of None \<Rightarrow> 0 | Some ss \<Rightarrow> labels_stmts ss)"
    and f: "fresh_labels (lbl g) (lbl g') (code_stmt (IfChain branches else_block) g)"
    by auto
  from a b c h n f
  show "\<exists>g2 g3 g'.
         gen_branches (str ''If_end_'' @ str_nat (lbl g + 1)) branches (g\<lparr>lbl := lbl g + 1\<rparr>) = Inr g2
         \<and> (case else_block of None \<Rightarrow> Inr g2 | Some ss \<Rightarrow> gen_stmts ss g2) = Inr g3
         \<and> gen_stmt (IfChain branches else_block) g = Inr g'
         \<and> code_stmt (IfChain branches else_block) g =
               code_branches (str ''If_end_'' @ str_nat (lbl g + 1)) branches (g\<lparr>lbl := lbl g + 1\<rparr>) @
               (case else_block of None \<Rightarrow> [] | Some ss \<Rightarrow> code_stmts ss g2) @
               [str ''If_end_'' @ str_nat (lbl g + 1) @ str '':'']
         \<and> lbl g' = lbl g + 1 + labels_branches branches
                   + (case else_block of None \<Rightarrow> 0 | Some ss \<Rightarrow> labels_stmts ss)
         \<and> fresh_labels (lbl g) (lbl g') (code_stmt (IfChain branches else_block) g)"
    by blast
next
  assume "gen_stmt (IfChain branches else_block) g = Inr h'"
  thus "wf_stmt (IfChain branches else_block)" by (rule wf_gen_stmt(1))
next
  show "code_branches Lend [] g = []" by (rule code_branches_Nil)
next
  assume w: "wf_branches ((cond, blk) # bs)"
  from gen_stmt_wf(3)[OF w] obtain g'' where h: "gen_branches Lend ((cond, blk) # bs) g = Inr g''"
    by blast
  from code_branches_Cons[OF h] obtain g2 g3 where
    a: "gen_expr cond (g\<lparr>lbl := lbl g + 1\<rparr>) = Inr g2"
    and b: "gen_stmts blk (emit (str ''  ifeq '' @ str ''If_next_'' @ str_nat (lbl g + 1)) g2) = Inr g3"
    and c: "gen_branches Lend bs
              (emit (str ''If_next_'' @ str_nat (lbl g + 1) @ str '':'') (emit (str ''  goto '' @ Lend) g3)) = Inr g''"
    and d: "code_branches Lend ((cond, blk) # bs) g =
               code_expr cond (g\<lparr>lbl := lbl g + 1\<rparr>) @
               [str ''  ifeq '' @ str ''If_next_'' @ str_nat (lbl g + 1)] @
               code_stmts blk g2 @
               [str ''  goto '' @ Lend, str ''If_next_'' @ str_nat (lbl g + 1) @ str '':''] @
               code_branches Lend bs g3"
    by blast
  from gen_stmt_labels(3)[OF h]
  have n: "lbl g'' = lbl g + 1 + labels_expr cond + labels_stmts blk + labels_branches bs"
    by simp
  from a b c d h n
  show "\<exists>g2 g3 g''.
         gen_expr cond (g\<lparr>lbl := lbl g + 1\<rparr>) = Inr g2
         \<and> gen_stmts blk (emit (str ''  ifeq '' @ str ''If_next_'' @ str_nat (lbl g + 1)) g2) = Inr g3
         \<and> gen_branches Lend bs
              (emit (str ''If_next_'' @ str_nat (lbl g + 1) @ str '':'') (emit (str ''  goto '' @ Lend) g3)) = Inr g''
         \<and> gen_branches Lend ((cond, blk) # bs) g = Inr g''
         \<and> code_branches Lend ((cond, blk) # bs) g =
               code_expr cond (g\<lparr>lbl := lbl g + 1\<rparr>) @
               [str ''  ifeq '' @ str ''If_next_'' @ str_nat (lbl g + 1)] @
               code_stmts blk g2 @
               [str ''  goto '' @ Lend, str ''If_next_'' @ str_nat (lbl g + 1) @ str '':''] @
               code_branches Lend bs g3
         \<and> lbl g'' = lbl g + 1 + labels_expr cond + labels_stmts blk + labels_branches bs"
    by blast
qed

text \<open>
  The chain \<^verbatim>\<open>if (x) { print 1; } else if (0 == 0) { print 2; }\<close>, which has no else
  body: both branch bodies jump to \<^verbatim>\<open>If_end_1\<close>, which follows the last next label.
  With the else body \<^verbatim>\<open>{ print 3; }\<close> its code comes between the two, with no jump.
\<close>

theorem C4_if_chain_code_witness:
  "wf_stmt (IfChain [(Var (str ''x''), [Print (IntE 1)]), (Cmp EQEQ (IntE 0) (IntE 0), [Print (IntE 2)])] None)
   \<and> code_stmt (IfChain [(Var (str ''x''), [Print (IntE 1)]), (Cmp EQEQ (IntE 0) (IntE 0), [Print (IntE 2)])]
        None) Codegen =
     [str ''  iload_1'',
      str ''  ifeq If_next_2'',
      str ''  getstatic java/lang/System/out Ljava/io/PrintStream;'',
      str ''  sipush 1'',
      str ''  invokevirtual java/io/PrintStream/println(I)V'',
      str ''  goto If_end_1'',
      str ''If_next_2:'',
      str ''  sipush 0'',
      str ''  sipush 0'',
      str ''  if_icmpeq Cmp_true_4'',
      str ''  iconst_0'',
      str ''  goto Cmp_end_5'',
      str ''Cmp_true_4:'',
      str ''  iconst_1'',
      str ''Cmp_end_5:'',
      str ''  ifeq If_next_3'',
      str ''  getstatic java/lang/System/out Ljava/io/PrintStream;'',
      str ''  sipush 2'',
      str ''  invokevirtual java/io/PrintStream/println(I)V'',
      str ''  goto If_end_1'',
      str ''If_next_3:'',
      str ''If_end_1:'']
   \<and> code_stmt (IfChain [(Var (str ''x''), [Print (IntE 1)]), (Cmp EQEQ (IntE 0) (IntE 0), [Print (IntE 2)])]
        (Some [Print (IntE 3)])) Codegen =
     [str ''  iload_1'',
      str ''  ifeq If_next_2'',
      str ''  getstatic java/lang/System/out Ljava/io/PrintStream;'',
      str ''  sipush 1'',
      str ''  invokevirtual java/io/PrintStream/println(I)V'',
      str ''  goto If_end_1'',
      str ''If_next_2:'',
      str ''  sipush 0'',
      str ''  sipush 0'',
      str ''  if_icmpeq Cmp_true_4'',
      str ''  iconst_0'',
      str ''  goto Cmp_end_5'',
      str ''Cmp_true_4:'',
      str ''  iconst_1'',
      str ''Cmp_end_5:'',
      str ''  ifeq If_next_3'',
      str ''  getstatic java/lang/System/out Ljava/io/PrintStream;'',
      str ''  sipush 2'',
      str ''  invokevirtual java/io/PrintStream/println(I)V'',
      str ''  goto If_end_1'',
      str ''If_next_3:'',
      str ''  getstatic java/lang/System/out Ljava/io/PrintStream;'',
      str ''  sipush 3'',
      str ''  invokevirtual java/io/PrintStream/println(I)V'',
      str ''If_end_1:'']
   \<and> fresh_labels 0 5 (code_stmt (IfChain [(Var (str ''x''), [Print (IntE 1)]), (Cmp EQEQ (IntE 0) (IntE 0), [Print (IntE 2)])]
        None) Codegen)
   \<and> label_numbers (code_stmt (IfChain [(Var (str ''x''), [Print (IntE 1)]), (Cmp EQEQ (IntE 0) (IntE 0), [Print (IntE 2)])]
        None) Codegen) = [2, 4, 5, 3, 1]"
proof -
  let ?bs = "[(Var (str ''x''), [Print (IntE 1)]), (Cmp EQEQ (IntE 0) (IntE 0), [Print (IntE 2)])]"
  let ?c = "IfChain ?bs None"
  let ?d = "IfChain ?bs (Some [Print (IntE 3)])"
  let ?pre = "[str ''  iload_1'',
      str ''  ifeq If_next_2'',
      str ''  getstatic java/lang/System/out Ljava/io/PrintStream;'',
      str ''  sipush 1'',
      str ''  invokevirtual java/io/PrintStream/println(I)V'',
      str ''  goto If_end_1'',
      str ''If_next_2:'',
      str ''  sipush 0'',
      str ''  sipush 0'',
      str ''  if_icmpeq Cmp_true_4'',
      str ''  iconst_0'',
      str ''  goto Cmp_end_5'',
      str ''Cmp_true_4:'',
      str ''  iconst_1'',
      str ''Cmp_end_5:'',
      str ''  ifeq If_next_3'',
      str ''  getstatic java/lang/System/out Ljava/io/PrintStream;'',
      str ''  sipush 2'',
      str ''  invokevirtual java/io/PrintStream/println(I)V'',
      str ''  goto If_end_1'',
      str ''If_next_3:'']"
  let ?els = "[str ''  getstatic java/lang/System/out Ljava/io/PrintStream;'',
      str ''  sipush 3'',
      str ''  invokevirtual java/io/PrintStream/println(I)V'']"
  let ?G = "\<lparr>locals = [str ''x'' \<mapsto> 1], next_slot = 2, lines = ?pre @ [str ''If_end_1:''],
      max_stack_guess = 32, lbl = 5\<rparr>"
  have w: "wf_stmt ?c" by simp
  have h: "gen_stmt ?c Codegen = Inr ?G"
    by (simp add: gen_eval str_def)
  then have c: "code_stmt ?c Codegen = ?pre @ [str ''If_end_1:'']"
    by (simp add: code_stmt_def Codegen_def)
  have "gen_stmt ?d Codegen =
      Inr \<lparr>locals = [str ''x'' \<mapsto> 1], next_slot = 2, lines = ?pre @ ?els @ [str ''If_end_1:''],
           max_stack_guess = 32, lbl = 5\<rparr>"
    by (simp add: gen_eval str_def)
  then have d: "code_stmt ?d Codegen = ?pre @ ?els @ [str ''If_end_1:'']"
    by (simp add: code_stmt_def Codegen_def)
  from C4_if_chain_code[of ?bs None Codegen] w
  obtain g' where "gen_stmt ?c Codegen = Inr g'"
    and "fresh_labels (lbl Codegen) (lbl g') (code_stmt ?c Codegen)"
    by blast
  with h have "fresh_labels (lbl Codegen) (lbl ?G) (code_stmt ?c Codegen)"
    by simp
  then have f: "fresh_labels 0 5 (code_stmt ?c Codegen)"
    by (simp add: Codegen_def)
  have "label_numbers (?pre @ [str ''If_end_1:'']) = [2, 4, 5, 3, 1]"
    by (simp add: label_numbers_def label_line_def label_number_def is_digit_def
          nat_of_digits_def str_def)
  with c d f w show ?thesis by simp
qed
section \<open>The lexer never fails\<close>

text \<open>
  C8: \<^verbatim>\<open>lex\<close> has no failing step (the one table lookup is made only for a key of the
  table), so it is a total function to token lists. Its result is always some tokens, none
  of them of kind \<^verbatim>\<open>EOF\<close> or \<^verbatim>\<open>WS\<close> or with empty text, followed by the token
  \<^verbatim>\<open>EOF\<close> with empty text. A character at which no rule matches is skipped: the result
  is that of the rest of the input. A non-empty sequence of characters that belong to no rule
  produces no token: the result is the tokens of the text before it followed by the result for
  the text after it.
\<close>

theorem C8_lexer_total:
  "(\<exists>ts. lex U s = ts @ [Token EOF []]
         \<and> (\<forall>t \<in> set ts. tok_t t \<noteq> EOF \<and> tok_t t \<noteq> WS \<and> tok_v t \<noteq> []))
   \<and> (TOKEN_REGEX U (c # cs) = None \<longrightarrow> lex U (c # cs) = lex U cs)
   \<and> (list_all (unmatched U) junk \<and> junk \<noteq> [] \<longrightarrow>
        lex U (r @ junk @ cs) = lex_out (finditer U r) @ lex U cs)"
proof (intro conjI impI)
  have "\<forall>t \<in> set (lex_out (finditer U s)). tok_t t \<noteq> EOF \<and> tok_t t \<noteq> WS \<and> tok_v t \<noteq> []"
    using lex_tokens by blast
  thus "\<exists>ts. lex U s = ts @ [Token EOF []]
         \<and> (\<forall>t \<in> set ts. tok_t t \<noteq> EOF \<and> tok_t t \<noteq> WS \<and> tok_v t \<noteq> [])"
    unfolding lex_def by blast
next
  assume "TOKEN_REGEX U (c # cs) = None"
  thus "lex U (c # cs) = lex U cs" by (simp add: lex_def)
next
  assume "list_all (unmatched U) junk \<and> junk \<noteq> []"
  hence "finditer U (r @ junk @ cs) = finditer U r @ finditer U cs"
    using finditer_cut_junk by blast
  thus "lex U (r @ junk @ cs) = lex_out (finditer U r) @ lex U cs"
    by (simp add: lex_def lex_out_append)
qed

text \<open>
  The text \<^verbatim>\<open>let a$#b = 1 ?\<close>: the two characters between \<^verbatim>\<open>a\<close> and \<^verbatim>\<open>b\<close> and the
  question mark leave no token, and \<^verbatim>\<open>a\<close> and \<^verbatim>\<open>b\<close> are two identifiers.
\<close>

theorem C8_lexer_total_witness:
  "unmatched ascii_interp 36 \<and> unmatched ascii_interp 35
   \<and> TOKEN_REGEX ascii_interp (str ''?'') = None
   \<and> lex ascii_interp (str ''let a'' @ str ''$#'' @ str ''b = 1 ?'') =
       lex_out (finditer ascii_interp (str ''let a'')) @ lex ascii_interp (str ''b = 1 ?'')
   \<and> lex ascii_interp (str ''let a$#b = 1 ?'') =
       [Token LET (str ''let''), Token ID (str ''a''), Token ID (str ''b''), Token EQ (str ''=''),
        Token INT' (str ''1''), Token EOF []]"
proof -
  have u: "list_all (unmatched ascii_interp) (str ''$#'') \<and> str ''$#'' \<noteq> []"
    by (simp add: unmatched_def ascii_interp_def lex_eval)
  have "lex ascii_interp (str ''let a'' @ str ''$#'' @ str ''b = 1 ?'') =
       lex_out (finditer ascii_interp (str ''let a'')) @ lex ascii_interp (str ''b = 1 ?'')"
    using C8_lexer_total[where U = ascii_interp and junk = "str ''$#''" and r = "str ''let a''"
        and cs = "str ''b = 1 ?''"] u
    by blast
  moreover have "lex ascii_interp (str ''let a$#b = 1 ?'') =
       [Token LET (str ''let''), Token ID (str ''a''), Token ID (str ''b''), Token EQ (str ''=''),
        Token INT' (str ''1''), Token EOF []]"
    by (simp add: ascii_interp_def lex_eval)
  moreover have "TOKEN_REGEX ascii_interp (str ''?'') = None"
    by (simp add: ascii_interp_def lex_eval)
  ultimately show ?thesis using u by (simp add: str_def)
qed
section \<open>Positions of the parser\<close>

text \<open>No method of the parser moves the position backwards, whether it returns or raises.\<close>

lemma le_pos_bind:
  "k \<le> pos m \<Longrightarrow> (\<And>x j. m = Return x j \<Longrightarrow> k \<le> j \<Longrightarrow> k \<le> pos (f x j)) \<Longrightarrow> k \<le> pos (bind m f)"
  by (cases m) auto

lemma le_pos_with_cur:
  "k \<le> i \<Longrightarrow> (\<And>tok. cur toks i = Inr tok \<Longrightarrow> k \<le> pos (f tok)) \<Longrightarrow> k \<le> pos (with_cur toks i f)"
  by (auto simp: with_cur_def split: sum.splits)

lemma le_pos_eat: "k \<le> i \<Longrightarrow> k \<le> pos (eat kind toks i)"
  by (auto simp: eat_def split: sum.splits)

lemma le_pos_loop:
  assumes sub: "\<And>i k. k \<le> i \<Longrightarrow> k \<le> pos (sub i)"
    and loop: "\<And>i k node. k \<le> i \<Longrightarrow> k \<le> pos (loop i node)"
    and k: "k \<le> i"
  shows "k \<le> pos (with_cur toks i (\<lambda>tok. if c tok then bind (sub (i + 1)) (\<lambda>rhs j. loop j (mk tok rhs))
                                          else Return node i))"
proof (rule le_pos_with_cur[OF k])
  fix tok
  show "k \<le> pos (if c tok then bind (sub (i + 1)) (\<lambda>rhs j. loop j (mk tok rhs)) else Return node i)"
  proof (cases "c tok")
    case True
    have "k \<le> pos (bind (sub (i + 1)) (\<lambda>rhs j. loop j (mk tok rhs)))"
      by (rule le_pos_bind) (simp_all add: sub loop k le_SucI)
    thus ?thesis using True by simp
  next
    case False
    thus ?thesis using k by simp
  qed
qed

lemma le_pos_level:
  assumes sub: "\<And>i k. k \<le> i \<Longrightarrow> k \<le> pos (sub i)"
    and loop: "\<And>i k node. k \<le> i \<Longrightarrow> k \<le> pos (loop i node)"
    and k: "k \<le> i"
  shows "k \<le> pos (bind (sub i) (\<lambda>node j. loop j node))"
  by (rule le_pos_bind) (simp_all add: sub loop k)

lemma expr_pos_aux:
  "(\<forall>toks i k. k \<le> i \<longrightarrow> k \<le> pos (expr n U toks i))
 \<and> (\<forall>toks i k. k \<le> i \<longrightarrow> k \<le> pos (equality n U toks i))
 \<and> (\<forall>toks i k node. k \<le> i \<longrightarrow> k \<le> pos (equality_loop n U toks i node))
 \<and> (\<forall>toks i k. k \<le> i \<longrightarrow> k \<le> pos (relational n U toks i))
 \<and> (\<forall>toks i k node. k \<le> i \<longrightarrow> k \<le> pos (relational_loop n U toks i node))
 \<and> (\<forall>toks i k. k \<le> i \<longrightarrow> k \<le> pos (additive n U toks i))
 \<and> (\<forall>toks i k node. k \<le> i \<longrightarrow> k \<le> pos (additive_loop n U toks i node))
 \<and> (\<forall>toks i k. k \<le> i \<longrightarrow> k \<le> pos (term n U toks i))
 \<and> (\<forall>toks i k node. k \<le> i \<longrightarrow> k \<le> pos (term_loop n U toks i node))
 \<and> (\<forall>toks i k. k \<le> i \<longrightarrow> k \<le> pos (factor n U toks i))"
proof (induction n)
  case 0
  show ?case by simp
next
  case (Suc n)
  hence ih: "\<And>toks i k. k \<le> i \<Longrightarrow> k \<le> pos (expr n U toks i)"
    "\<And>toks i k. k \<le> i \<Longrightarrow> k \<le> pos (equality n U toks i)"
    "\<And>toks i k node. k \<le> i \<Longrightarrow> k \<le> pos (equality_loop n U toks i node)"
    "\<And>toks i k. k \<le> i \<Longrightarrow> k \<le> pos (relational n U toks i)"
    "\<And>toks i k node. k \<le> i \<Longrightarrow> k \<le> pos (relational_loop n U toks i node)"
    "\<And>toks i k. k \<le> i \<Longrightarrow> k \<le> pos (additive n U toks i)"
    "\<And>toks i k node. k \<le> i \<Longrightarrow> k \<le> pos (additive_loop n U toks i node)"
    "\<And>toks i k. k \<le> i \<Longrightarrow> k \<le> pos (term n U toks i)"
    "\<And>toks i k node. k \<le> i \<Longrightarrow> k \<le> pos (term_loop n U toks i node)"
    "\<And>toks i k. k \<le> i \<Longrightarrow> k \<le> pos (factor n U toks i)"
    by simp_all
  have 1: "k \<le> i \<Longrightarrow> k \<le> pos (expr (Suc n) U toks i)" for toks i k
    by (simp add: ih)
  have 2: "k \<le> i \<Longrightarrow> k \<le> pos (equality (Suc n) U toks i)" for toks i k
    unfolding equality.simps by (rule le_pos_level) (simp_all add: ih)
  have 3: "k \<le> i \<Longrightarrow> k \<le> pos (equality_loop (Suc n) U toks i node)" for toks i k node
    unfolding equality_loop.simps by (rule le_pos_loop) (simp_all add: ih)
  have 4: "k \<le> i \<Longrightarrow> k \<le> pos (relational (Suc n) U toks i)" for toks i k
    unfolding relational.simps by (rule le_pos_level) (simp_all add: ih)
  have 5: "k \<le> i \<Longrightarrow> k \<le> pos (relational_loop (Suc n) U toks i node)" for toks i k node
    unfolding relational_loop.simps by (rule le_pos_loop) (simp_all add: ih)
  have 6: "k \<le> i \<Longrightarrow> k \<le> pos (additive (Suc n) U toks i)" for toks i k
    unfolding additive.simps by (rule le_pos_level) (simp_all add: ih)
  have 7: "k \<le> i \<Longrightarrow> k \<le> pos (additive_loop (Suc n) U toks i node)" for toks i k node
    unfolding additive_loop.simps by (rule le_pos_loop) (simp_all add: ih)
  have 8: "k \<le> i \<Longrightarrow> k \<le> pos (term (Suc n) U toks i)" for toks i k
    unfolding "term.simps" by (rule le_pos_level) (simp_all add: ih)
  have 9: "k \<le> i \<Longrightarrow> k \<le> pos (term_loop (Suc n) U toks i node)" for toks i k node
    unfolding term_loop.simps by (rule le_pos_loop) (simp_all add: ih)
  have 10: "k \<le> i \<Longrightarrow> k \<le> pos (factor (Suc n) U toks i)" for toks i k
    unfolding factor.simps
    by (rule le_pos_with_cur, assumption)
       (auto simp: ih le_SucI eat_def cur_def split: sum.splits if_splits intro!: le_pos_bind)
  show ?case
    by (intro conjI allI impI) (erule 1 2 3 4 5 6 7 8 9 10)+
qed


lemma expr_pos:
  "k \<le> i \<Longrightarrow> k \<le> pos (expr n U toks i)"
  "k \<le> i \<Longrightarrow> k \<le> pos (equality n U toks i)"
  "k \<le> i \<Longrightarrow> k \<le> pos (equality_loop n U toks i node)"
  "k \<le> i \<Longrightarrow> k \<le> pos (relational n U toks i)"
  "k \<le> i \<Longrightarrow> k \<le> pos (relational_loop n U toks i node)"
  "k \<le> i \<Longrightarrow> k \<le> pos (additive n U toks i)"
  "k \<le> i \<Longrightarrow> k \<le> pos (additive_loop n U toks i node)"
  "k \<le> i \<Longrightarrow> k \<le> pos (term n U toks i)"
  "k \<le> i \<Longrightarrow> k \<le> pos (term_loop n U toks i node)"
  "k \<le> i \<Longrightarrow> k \<le> pos (factor n U toks i)"
  using expr_pos_aux[of n U] by simp_all
section \<open>What the expression methods read\<close>

text \<open>
  The result of a method of the expression grammar depends on the tokens from its position
  to the position of its result only, and neither on where these tokens stand in the list
  nor on the fuel, as long as the model does not run out of it.
\<close>

lemma shift_simps [simp]:
  "shift d (Raise e j) = Raise e (j + d)"
  "shift d (Return x j) = Return x (j + d)"
  by (simp_all add: shift_def)

lemma oof_bind: "\<not> oof (bind m F) \<Longrightarrow> \<not> oof m"
  by (cases m) auto

lemma cur_la: "cur toks' a = cur toks b \<Longrightarrow> la toks' a = la toks b"
  by (auto simp: cur_def la_def split: if_splits)

lemma window_la: "window toks toks' d i r \<Longrightarrow> la toks' (pos r + d) = la toks (pos r)"
  by (cases r) (auto simp: window_def intro: cur_la)

lemma window_cur: "window toks toks' d i r \<Longrightarrow> i \<le> k \<Longrightarrow> k < pos r \<Longrightarrow> cur toks' (k + d) = cur toks k"
  by (simp add: window_def)

lemma window_Raise: "window toks toks' d i (Raise e j) \<Longrightarrow> cur toks' (j + d) = cur toks j"
  by (simp add: window_def)

lemma window_later: "window toks toks' d i r \<Longrightarrow> i \<le> j \<Longrightarrow> window toks toks' d j r"
  by (auto simp: window_def)

lemma window_first:
  assumes w: "window toks toks' d i r" and j: "j \<le> pos r" and i: "i \<le> j"
  shows "window toks toks' d i (Return x j :: 'b result)"
proof -
  have "la toks' (j + d) = la toks j"
  proof (cases "j < pos r")
    case True
    hence "cur toks' (j + d) = cur toks j" using w i by (simp add: window_def)
    thus ?thesis by (rule cur_la)
  next
    case False
    hence "j = pos r" using j by simp
    thus ?thesis using window_la[OF w] by simp
  qed
  thus ?thesis using w j by (auto simp: window_def)
qed



lemma window_Raise_any:
  "window toks toks' d i (Raise e j :: 'a result) \<Longrightarrow> window toks toks' d i (Raise e j :: 'b result)"
  by (simp add: window_def)

lemma stable_bind:
  assumes w: "window toks toks' d i (bind m F)"
    and o: "\<not> oof (bind m F)" and o': "P \<or> \<not> oof (bind m' F')"
    and m: "window toks toks' d i m \<Longrightarrow> \<not> oof m \<Longrightarrow> P \<or> \<not> oof m' \<Longrightarrow> m' = shift d m"
    and F: "\<And>x j. m = Return x j \<Longrightarrow> window toks toks' d j (F x j) \<Longrightarrow> \<not> oof (F x j)
              \<Longrightarrow> P \<or> \<not> oof (F' x (j + d)) \<Longrightarrow> F' x (j + d) = shift d (F x j)"
    and mono: "i \<le> pos m" "\<And>x j. m = Return x j \<Longrightarrow> j \<le> pos (F x j)"
  shows "bind m' F' = shift d (bind m F)"
proof (cases m)
  case (Raise e j)
  have om: "P \<or> \<not> oof m'" using o' oof_bind[of m' F'] by blast
  have "window toks toks' d i (bind m F)" "bind m F = Raise e j" using w Raise by simp_all
  hence "window toks toks' d i m" unfolding Raise by (simp add: window_def)
  from m[OF this oof_bind[OF o] om] Raise show ?thesis by simp
next
  case (Return x j)
  have om: "P \<or> \<not> oof m'" using o' oof_bind[of m' F'] by blast
  have r: "bind m F = F x j" using Return by simp
  have ij: "i \<le> j" using mono(1) Return by simp
  have "window toks toks' d i m"
    unfolding Return using w[unfolded r] mono(2)[OF Return] ij by (rule window_first)
  from m[OF this oof_bind[OF o] om] Return
  have m': "m' = Return x (j + d)" by simp
  have wF: "window toks toks' d j (F x j)" using w[unfolded r] ij by (rule window_later)
  have oF: "\<not> oof (F x j)" using o r by simp
  have oF': "P \<or> \<not> oof (F' x (j + d))" using o' m' by simp
  from F[OF Return wF oF oF'] r m' show ?thesis by simp
qed

lemma eat_cases:
  obtains e where "cur toks i = Inl e" "eat kind toks i = Raise e i"
  | tok where "cur toks i = Inr tok" "tok_t tok \<noteq> kind" "eat kind toks i = Raise (SyntaxError_expected kind tok) i"
  | tok where "cur toks i = Inr tok" "tok_t tok = kind" "eat kind toks i = Return () (i + 1)"
  by (cases "cur toks i") (auto simp: eat_def)

lemma eat_shift: "cur toks' (i + d) = cur toks i \<Longrightarrow> eat kind toks' (i + d) = shift d (eat kind toks i)"
  by (cases "cur toks i") (simp_all add: eat_def)

lemma stable_eat:
  assumes w: "window toks toks' d i (eat kind toks i)"
  shows "eat kind toks' (i + d) = shift d (eat kind toks i)"
proof -
  have "cur toks' (i + d) = cur toks i"
  proof (cases kind toks i rule: eat_cases)
    case (1 e)
    thus ?thesis using w by (simp add: window_def)
  next
    case (2 tok)
    thus ?thesis using w by (simp add: window_def)
  next
    case (3 tok)
    thus ?thesis using w by (simp add: window_def)
  qed
  thus ?thesis by (rule eat_shift)
qed

lemma eat_pos: "i \<le> pos (eat kind toks i)"
  by (cases kind toks i rule: eat_cases) simp_all

lemma eat_Return: "eat kind toks i = Return x j \<Longrightarrow> j = i + 1"
  by (cases kind toks i rule: eat_cases) simp_all

lemma eat_oof [simp]: "\<not> oof (eat kind toks i)"
  by (cases kind toks i rule: eat_cases) (auto simp: cur_def split: if_splits)

lemma la_class:
  "la toks' a = la toks b \<Longrightarrow> cur toks b = Inr tok \<Longrightarrow>
     \<exists>tok'. cur toks' a = Inr tok' \<and> opclass (tok_t tok') = opclass (tok_t tok)"
  by (auto simp: la_def cur_def split: if_splits)

lemma stable_loop:
  fixes sub sub' :: "nat \<Rightarrow> Expr result" and loop loop' :: "nat \<Rightarrow> Expr \<Rightarrow> Expr result"
  assumes r_def: "r = with_cur toks i (\<lambda>tok. if opclass (tok_t tok) = q
                 then bind (sub (i + 1)) (\<lambda>rhs j. loop j (mk (tok_t tok) node rhs)) else Return node i)"
    and r'_def: "r' = with_cur toks' (i + d) (\<lambda>tok. if opclass (tok_t tok) = q
                 then bind (sub' (i + d + 1)) (\<lambda>rhs j. loop' j (mk (tok_t tok) node rhs)) else Return node (i + d))"
    and w: "window toks toks' d i r" and o: "\<not> oof r" and o': "P \<or> \<not> oof r'"
    and sub: "window toks toks' d (i + 1) (sub (i + 1)) \<Longrightarrow> \<not> oof (sub (i + 1)) \<Longrightarrow> P \<or> \<not> oof (sub' (i + d + 1))
                \<Longrightarrow> sub' (i + d + 1) = shift d (sub (i + 1))"
    and loop: "\<And>j node. window toks toks' d j (loop j node) \<Longrightarrow> \<not> oof (loop j node) \<Longrightarrow> P \<or> \<not> oof (loop' (j + d) node)
                \<Longrightarrow> loop' (j + d) node = shift d (loop j node)"
    and mono: "i + 1 \<le> pos (sub (i + 1))" "\<And>j node. j \<le> pos (loop j node)"
  shows "r' = shift d r"
proof (cases "cur toks i")
  case (Inl e)
  hence r: "r = Raise e i" by (simp add: r_def with_cur_def)
  hence "cur toks' (i + d) = cur toks i" using w by (simp add: window_def)
  thus ?thesis using r Inl by (simp add: r'_def with_cur_def)
next
  case (Inr tok)
  show ?thesis
  proof (cases "opclass (tok_t tok) = q")
    case False
    hence r: "r = Return node i" using Inr by (simp add: r_def with_cur_def)
    hence "la toks' (i + d) = la toks i" using w by (simp add: window_def)
    from la_class[OF this Inr] obtain tok' where "cur toks' (i + d) = Inr tok'"
      and "opclass (tok_t tok') = opclass (tok_t tok)" by blast
    thus ?thesis using r False by (simp add: r'_def with_cur_def)
  next
    case True
    let ?F = "\<lambda>rhs j. loop j (mk (tok_t tok) node rhs)"
    let ?F' = "\<lambda>rhs j. loop' j (mk (tok_t tok) node rhs)"
    have r: "r = bind (sub (i + 1)) ?F" using Inr True by (simp add: r_def with_cur_def)
    have p: "i + 1 \<le> pos r" unfolding r
      by (rule le_pos_bind[OF mono(1)]) (rule order_trans[OF _ mono(2)])
    hence "i < pos r" by simp
    hence c: "cur toks' (i + d) = cur toks i" using w by (simp add: window_def)
    hence r': "r' = bind (sub' (i + d + 1)) ?F'" using Inr True by (simp add: r'_def with_cur_def)
    have w1: "window toks toks' d (i + 1) (bind (sub (i + 1)) ?F)"
      using w[unfolded r] by (rule window_later) simp
    have "bind (sub' (i + d + 1)) ?F' = shift d (bind (sub (i + 1)) ?F)"
    proof (rule stable_bind[OF w1 o[unfolded r] o'[unfolded r']])
      show "sub' (i + d + 1) = shift d (sub (i + 1))"
        if "window toks toks' d (i + 1) (sub (i + 1))" "\<not> oof (sub (i + 1))" "P \<or> \<not> oof (sub' (i + d + 1))"
        using sub[OF that] .
      show "loop' (j + d) (mk (tok_t tok) node x) = shift d (loop j (mk (tok_t tok) node x))"
        if "window toks toks' d j (loop j (mk (tok_t tok) node x))" "\<not> oof (loop j (mk (tok_t tok) node x))"
           "P \<or> \<not> oof (loop' (j + d) (mk (tok_t tok) node x))" for x j
        using loop[OF that] .
      show "i + 1 \<le> pos (sub (i + 1))" by (rule mono(1))
      show "j \<le> pos (loop j (mk (tok_t tok) node x))" for x j by (rule mono(2))
    qed
    thus ?thesis using r r' by simp
  qed
qed



lemma window_cur_first:
  assumes w: "window toks toks' d i r" and i: "i \<le> pos r" and n: "\<And>x. r \<noteq> Return x i"
  shows "cur toks' (i + d) = cur toks i"
proof (cases r)
  case (Raise e j)
  show ?thesis
  proof (cases "i = j")
    case True
    thus ?thesis using w Raise by (simp add: window_def)
  next
    case False
    hence "i < pos r" using i Raise by simp
    thus ?thesis using w by (simp add: window_def)
  qed
next
  case (Return x j)
  hence "i \<noteq> j" using n by auto
  hence "i < pos r" using i Return by simp
  thus ?thesis using w by (simp add: window_def)
qed

lemma opclass_eq:
  "(k = EQEQ \<or> k = NE) = (opclass k = 1)"
  "(k = LT \<or> k = GT \<or> k = LE \<or> k = GE) = (opclass k = 2)"
  "(k = PLUS \<or> k = MINUS) = (opclass k = 3)"
  "(k = MUL \<or> k = DIV) = (opclass k = 4)"
  by (cases k; simp)+

text \<open>A factor that returns has read a token.\<close>

lemma factor_strict: "factor n U toks i = Return x j \<Longrightarrow> i < j"
proof (cases n)
  case 0
  assume "factor n U toks i = Return x j"
  thus ?thesis using 0 by simp
next
  case (Suc m)
  assume r: "factor n U toks i = Return x j"
  then obtain tok where c: "cur toks i = Inr tok"
    using Suc by (cases "cur toks i") (auto simp: with_cur_def)
  have e: "eat kind toks i = Return () (i + 1)" if "tok_t tok = kind" for kind
    using c that by (simp add: eat_def)
  consider "tok_t tok = INT'" | "tok_t tok = ID" | "tok_t tok = LP"
    | "tok_t tok \<noteq> INT'" "tok_t tok \<noteq> ID" "tok_t tok \<noteq> LP" by blast
  thus ?thesis
  proof cases
    case 1
    thus ?thesis using r Suc c e[OF 1] by (auto simp: with_cur_def split: sum.splits)
  next
    case 2
    thus ?thesis using r Suc c e[OF 2] by (auto simp: with_cur_def)
  next
    case 3
    hence "bind (expr m U toks (i + 1)) (\<lambda>e k. bind (eat RP toks k) (\<lambda>_ l. Return e l)) = Return x j"
      using r Suc c e[OF 3] by (simp add: with_cur_def)
    moreover have "i + 1 \<le> pos (bind (expr m U toks (i + 1)) (\<lambda>e k. bind (eat RP toks k) (\<lambda>_ l. Return e l)))"
      by (rule le_pos_bind) (auto intro!: expr_pos le_pos_bind le_pos_eat)
    ultimately show ?thesis by simp
  next
    case 4
    thus ?thesis using r Suc c by (simp add: with_cur_def)
  qed
qed

lemma stable_factor:
  assumes ih: "\<And>n' i. window toks toks' d i (expr n U toks i) \<Longrightarrow> \<not> oof (expr n U toks i)
                 \<Longrightarrow> n \<le> n' \<or> \<not> oof (expr n' U toks' (i + d))
                 \<Longrightarrow> expr n' U toks' (i + d) = shift d (expr n U toks i)"
    and w: "window toks toks' d i (factor (Suc n) U toks i)"
    and o: "\<not> oof (factor (Suc n) U toks i)" and o': "n \<le> n' \<or> \<not> oof (factor (Suc n') U toks' (i + d))"
  shows "factor (Suc n') U toks' (i + d) = shift d (factor (Suc n) U toks i)"
proof -
  have ns: "factor (Suc n) U toks i \<noteq> Return x i" for x
  proof
    assume "factor (Suc n) U toks i = Return x i"
    from factor_strict[OF this] show False by simp
  qed
  have c: "cur toks' (i + d) = cur toks i"
    by (rule window_cur_first[OF w expr_pos(10) ns]) simp
  show ?thesis
  proof (cases "cur toks i")
    case (Inl e)
    thus ?thesis using c by (simp add: with_cur_def)
  next
    case (Inr tok)
    have e: "eat kind toks i = Return () (i + 1)" "eat kind toks' (i + d) = Return () (i + d + 1)"
      if "tok_t tok = kind" for kind
      using Inr c that by (simp_all add: eat_def)
    consider "tok_t tok = INT'" | "tok_t tok = ID" | "tok_t tok = LP"
      | "tok_t tok \<noteq> INT'" "tok_t tok \<noteq> ID" "tok_t tok \<noteq> LP" by blast
    thus ?thesis
    proof cases
      case 1
      thus ?thesis using Inr c e[OF 1] by (simp add: with_cur_def split: sum.splits)
    next
      case 2
      thus ?thesis using Inr c e[OF 2] by (simp add: with_cur_def)
    next
      case 3
      let ?G = "\<lambda>e k. bind (eat RP toks k) (\<lambda>_ l. Return e l)"
      let ?G' = "\<lambda>e k. bind (eat RP toks' k) (\<lambda>_ l. Return e l)"
      have r: "factor (Suc n) U toks i = bind (expr n U toks (i + 1)) ?G"
        using Inr 3 e[OF 3] by (simp add: with_cur_def)
      have r': "factor (Suc n') U toks' (i + d) = bind (expr n' U toks' (i + 1 + d)) ?G'"
        using Inr c 3 e[OF 3] by (simp add: with_cur_def add.commute add.left_commute)
      have w1: "window toks toks' d (i + 1) (bind (expr n U toks (i + 1)) ?G)"
        using w[unfolded r] by (rule window_later) simp
      have "bind (expr n' U toks' (i + 1 + d)) ?G' = shift d (bind (expr n U toks (i + 1)) ?G)"
      proof (rule stable_bind[OF w1 o[unfolded r] o'[unfolded r']])
        show "expr n' U toks' (i + 1 + d) = shift d (expr n U toks (i + 1))"
          if "window toks toks' d (i + 1) (expr n U toks (i + 1))" "\<not> oof (expr n U toks (i + 1))"
             "n \<le> n' \<or> \<not> oof (expr n' U toks' (i + 1 + d))"
          using ih[OF that] .
        show "bind (eat RP toks' (j + d)) (\<lambda>_ l. Return x l) = shift d (bind (eat RP toks j) (\<lambda>_ l. Return x l))"
          if w2: "window toks toks' d j (bind (eat RP toks j) (\<lambda>_ l. Return x l))" for x j
        proof -
          have "cur toks' (j + d) = cur toks j"
            by (rule window_cur_first[OF w2])
               (cases RP toks j rule: eat_cases; simp)+
          from eat_shift[OF this, of RP] show ?thesis
            by (cases RP toks j rule: eat_cases) simp_all
        qed
        show "i + 1 \<le> pos (expr n U toks (i + 1))" by (rule expr_pos) simp
        show "j \<le> pos (bind (eat RP toks j) (\<lambda>_ l. Return x l))" for x j
          by (cases RP toks j rule: eat_cases) simp_all
      qed
      thus ?thesis using r r' by simp
    next
      case 4
      thus ?thesis using Inr c by (simp add: with_cur_def)
    qed
  qed
qed

lemma expr_stable_aux:
  "(\<forall>n' i. window toks toks' d i (expr n U toks i) \<longrightarrow> \<not> oof (expr n U toks i)
       \<longrightarrow> n \<le> n' \<or> \<not> oof (expr n' U toks' (i + d))
       \<longrightarrow> expr n' U toks' (i + d) = shift d (expr n U toks i))
 \<and> (\<forall>n' i. window toks toks' d i (equality n U toks i) \<longrightarrow> \<not> oof (equality n U toks i)
       \<longrightarrow> n \<le> n' \<or> \<not> oof (equality n' U toks' (i + d))
       \<longrightarrow> equality n' U toks' (i + d) = shift d (equality n U toks i))
 \<and> (\<forall>n' i node. window toks toks' d i (equality_loop n U toks i node) \<longrightarrow> \<not> oof (equality_loop n U toks i node)
       \<longrightarrow> n \<le> n' \<or> \<not> oof (equality_loop n' U toks' (i + d) node)
       \<longrightarrow> equality_loop n' U toks' (i + d) node = shift d (equality_loop n U toks i node))
 \<and> (\<forall>n' i. window toks toks' d i (relational n U toks i) \<longrightarrow> \<not> oof (relational n U toks i)
       \<longrightarrow> n \<le> n' \<or> \<not> oof (relational n' U toks' (i + d))
       \<longrightarrow> relational n' U toks' (i + d) = shift d (relational n U toks i))
 \<and> (\<forall>n' i node. window toks toks' d i (relational_loop n U toks i node) \<longrightarrow> \<not> oof (relational_loop n U toks i node)
       \<longrightarrow> n \<le> n' \<or> \<not> oof (relational_loop n' U toks' (i + d) node)
       \<longrightarrow> relational_loop n' U toks' (i + d) node = shift d (relational_loop n U toks i node))
 \<and> (\<forall>n' i. window toks toks' d i (additive n U toks i) \<longrightarrow> \<not> oof (additive n U toks i)
       \<longrightarrow> n \<le> n' \<or> \<not> oof (additive n' U toks' (i + d))
       \<longrightarrow> additive n' U toks' (i + d) = shift d (additive n U toks i))
 \<and> (\<forall>n' i node. window toks toks' d i (additive_loop n U toks i node) \<longrightarrow> \<not> oof (additive_loop n U toks i node)
       \<longrightarrow> n \<le> n' \<or> \<not> oof (additive_loop n' U toks' (i + d) node)
       \<longrightarrow> additive_loop n' U toks' (i + d) node = shift d (additive_loop n U toks i node))
 \<and> (\<forall>n' i. window toks toks' d i (term n U toks i) \<longrightarrow> \<not> oof (term n U toks i)
       \<longrightarrow> n \<le> n' \<or> \<not> oof (term n' U toks' (i + d))
       \<longrightarrow> term n' U toks' (i + d) = shift d (term n U toks i))
 \<and> (\<forall>n' i node. window toks toks' d i (term_loop n U toks i node) \<longrightarrow> \<not> oof (term_loop n U toks i node)
       \<longrightarrow> n \<le> n' \<or> \<not> oof (term_loop n' U toks' (i + d) node)
       \<longrightarrow> term_loop n' U toks' (i + d) node = shift d (term_loop n U toks i node))
 \<and> (\<forall>n' i. window toks toks' d i (factor n U toks i) \<longrightarrow> \<not> oof (factor n U toks i)
       \<longrightarrow> n \<le> n' \<or> \<not> oof (factor n' U toks' (i + d))
       \<longrightarrow> factor n' U toks' (i + d) = shift d (factor n U toks i))"
proof (induction n)
  case 0
  show ?case by simp
next
  case (Suc n)
  note ih =
    Suc.IH[THEN conjunct1, rule_format]
    Suc.IH[THEN conjunct2, THEN conjunct1, rule_format]
    Suc.IH[THEN conjunct2, THEN conjunct2, THEN conjunct1, rule_format]
    Suc.IH[THEN conjunct2, THEN conjunct2, THEN conjunct2, THEN conjunct1, rule_format]
    Suc.IH[THEN conjunct2, THEN conjunct2, THEN conjunct2, THEN conjunct2, THEN conjunct1, rule_format]
    Suc.IH[THEN conjunct2, THEN conjunct2, THEN conjunct2, THEN conjunct2, THEN conjunct2, THEN conjunct1, rule_format]
    Suc.IH[THEN conjunct2, THEN conjunct2, THEN conjunct2, THEN conjunct2, THEN conjunct2, THEN conjunct2, THEN conjunct1, rule_format]
    Suc.IH[THEN conjunct2, THEN conjunct2, THEN conjunct2, THEN conjunct2, THEN conjunct2, THEN conjunct2, THEN conjunct2, THEN conjunct1, rule_format]
    Suc.IH[THEN conjunct2, THEN conjunct2, THEN conjunct2, THEN conjunct2, THEN conjunct2, THEN conjunct2, THEN conjunct2, THEN conjunct2, THEN conjunct1, rule_format]
    Suc.IH[THEN conjunct2, THEN conjunct2, THEN conjunct2, THEN conjunct2, THEN conjunct2, THEN conjunct2, THEN conjunct2, THEN conjunct2, THEN conjunct2, rule_format]
  have s1: "expr n' U toks' (i + d) = shift d (expr (Suc n) U toks i)"
    if w: "window toks toks' d i (expr (Suc n) U toks i)" and o: "\<not> oof (expr (Suc n) U toks i)"
      and o0: "Suc n \<le> n' \<or> \<not> oof (expr n' U toks' (i + d))" for n' i
  proof -
    obtain m where n': "n' = Suc m" using o0 by (cases n') auto
    have o': "n \<le> m \<or> \<not> oof (expr (Suc m) U toks' (i + d))" using o0 n' by simp
    show ?thesis using ih(2)[of i m] w o o' unfolding n' by simp
  qed
  have s2: "equality n' U toks' (i + d) = shift d (equality (Suc n) U toks i)"
    if w: "window toks toks' d i (equality (Suc n) U toks i)" and o: "\<not> oof (equality (Suc n) U toks i)"
      and o0: "Suc n \<le> n' \<or> \<not> oof (equality n' U toks' (i + d))" for n' i
  proof -
    obtain m where n': "n' = Suc m" using o0 by (cases n') auto
    have o': "n \<le> m \<or> \<not> oof (equality (Suc m) U toks' (i + d))" using o0 n' by simp
    show ?thesis unfolding n' equality.simps
    proof (rule stable_bind[OF w[unfolded equality.simps] o[unfolded equality.simps] o'[unfolded equality.simps]])
      show "relational m U toks' (i + d) = shift d (relational n U toks i)"
        if "window toks toks' d i (relational n U toks i)" "\<not> oof (relational n U toks i)"
           "n \<le> m \<or> \<not> oof (relational m U toks' (i + d))"
        using ih(4)[OF that] .
      show "equality_loop m U toks' (j + d) x = shift d (equality_loop n U toks j x)"
        if "window toks toks' d j (equality_loop n U toks j x)" "\<not> oof (equality_loop n U toks j x)"
           "n \<le> m \<or> \<not> oof (equality_loop m U toks' (j + d) x)" for x j
        using ih(3)[OF that] .
      show "i \<le> pos (relational n U toks i)" by (rule expr_pos) simp
      show "j \<le> pos (equality_loop n U toks j x)" for x j by (rule expr_pos) simp
    qed
  qed
  have s3: "equality_loop n' U toks' (i + d) node = shift d (equality_loop (Suc n) U toks i node)"
    if w: "window toks toks' d i (equality_loop (Suc n) U toks i node)" and o: "\<not> oof (equality_loop (Suc n) U toks i node)"
      and o0: "Suc n \<le> n' \<or> \<not> oof (equality_loop n' U toks' (i + d) node)" for n' i node
  proof -
    obtain m where n': "n' = Suc m" using o0 by (cases n') auto
    have o': "n \<le> m \<or> \<not> oof (equality_loop (Suc m) U toks' (i + d) node)" using o0 n' by simp
    show ?thesis unfolding n'
    proof (rule stable_loop[where sub = "relational n U toks" and sub' = "relational m U toks'"
          and loop = "equality_loop n U toks" and loop' = "equality_loop m U toks'" and mk = Cmp and q = 1
          and node = node and i = i and d = d and toks = toks and toks' = toks' and P = "n \<le> m"])
      show "equality_loop (Suc n) U toks i node = with_cur toks i (\<lambda>tok. if opclass (tok_t tok) = 1
                 then bind (relational n U toks (i + 1)) (\<lambda>rhs j. equality_loop n U toks j (Cmp (tok_t tok) node rhs))
                 else Return node i)"
        by (simp add: opclass_eq)
      show "equality_loop (Suc m) U toks' (i + d) node = with_cur toks' (i + d) (\<lambda>tok. if opclass (tok_t tok) = 1
                 then bind (relational m U toks' (i + d + 1)) (\<lambda>rhs j. equality_loop m U toks' j (Cmp (tok_t tok) node rhs))
                 else Return node (i + d))"
        by (simp add: opclass_eq)
      show "window toks toks' d i (equality_loop (Suc n) U toks i node)" by (rule w)
      show "\<not> oof (equality_loop (Suc n) U toks i node)" by (rule o)
      show "n \<le> m \<or> \<not> oof (equality_loop (Suc m) U toks' (i + d) node)" by (rule o')
      show "relational m U toks' (i + d + 1) = shift d (relational n U toks (i + 1))"
        if "window toks toks' d (i + 1) (relational n U toks (i + 1))" "\<not> oof (relational n U toks (i + 1))"
           "n \<le> m \<or> \<not> oof (relational m U toks' (i + d + 1))"
        using ih(4)[of "i + 1" m] that by (simp add: add.commute add.left_commute)
      show "equality_loop m U toks' (j + d) x = shift d (equality_loop n U toks j x)"
        if "window toks toks' d j (equality_loop n U toks j x)" "\<not> oof (equality_loop n U toks j x)"
           "n \<le> m \<or> \<not> oof (equality_loop m U toks' (j + d) x)" for x j
        using ih(3)[OF that] .
      show "i + 1 \<le> pos (relational n U toks (i + 1))" by (rule expr_pos) simp
      show "j \<le> pos (equality_loop n U toks j x)" for x j by (rule expr_pos) simp
    qed
  qed
  have s4: "relational n' U toks' (i + d) = shift d (relational (Suc n) U toks i)"
    if w: "window toks toks' d i (relational (Suc n) U toks i)" and o: "\<not> oof (relational (Suc n) U toks i)"
      and o0: "Suc n \<le> n' \<or> \<not> oof (relational n' U toks' (i + d))" for n' i
  proof -
    obtain m where n': "n' = Suc m" using o0 by (cases n') auto
    have o': "n \<le> m \<or> \<not> oof (relational (Suc m) U toks' (i + d))" using o0 n' by simp
    show ?thesis unfolding n' relational.simps
    proof (rule stable_bind[OF w[unfolded relational.simps] o[unfolded relational.simps] o'[unfolded relational.simps]])
      show "additive m U toks' (i + d) = shift d (additive n U toks i)"
        if "window toks toks' d i (additive n U toks i)" "\<not> oof (additive n U toks i)"
           "n \<le> m \<or> \<not> oof (additive m U toks' (i + d))"
        using ih(6)[OF that] .
      show "relational_loop m U toks' (j + d) x = shift d (relational_loop n U toks j x)"
        if "window toks toks' d j (relational_loop n U toks j x)" "\<not> oof (relational_loop n U toks j x)"
           "n \<le> m \<or> \<not> oof (relational_loop m U toks' (j + d) x)" for x j
        using ih(5)[OF that] .
      show "i \<le> pos (additive n U toks i)" by (rule expr_pos) simp
      show "j \<le> pos (relational_loop n U toks j x)" for x j by (rule expr_pos) simp
    qed
  qed
  have s5: "relational_loop n' U toks' (i + d) node = shift d (relational_loop (Suc n) U toks i node)"
    if w: "window toks toks' d i (relational_loop (Suc n) U toks i node)" and o: "\<not> oof (relational_loop (Suc n) U toks i node)"
      and o0: "Suc n \<le> n' \<or> \<not> oof (relational_loop n' U toks' (i + d) node)" for n' i node
  proof -
    obtain m where n': "n' = Suc m" using o0 by (cases n') auto
    have o': "n \<le> m \<or> \<not> oof (relational_loop (Suc m) U toks' (i + d) node)" using o0 n' by simp
    show ?thesis unfolding n'
    proof (rule stable_loop[where sub = "additive n U toks" and sub' = "additive m U toks'"
          and loop = "relational_loop n U toks" and loop' = "relational_loop m U toks'" and mk = Cmp and q = 2
          and node = node and i = i and d = d and toks = toks and toks' = toks' and P = "n \<le> m"])
      show "relational_loop (Suc n) U toks i node = with_cur toks i (\<lambda>tok. if opclass (tok_t tok) = 2
                 then bind (additive n U toks (i + 1)) (\<lambda>rhs j. relational_loop n U toks j (Cmp (tok_t tok) node rhs))
                 else Return node i)"
        by (simp add: opclass_eq)
      show "relational_loop (Suc m) U toks' (i + d) node = with_cur toks' (i + d) (\<lambda>tok. if opclass (tok_t tok) = 2
                 then bind (additive m U toks' (i + d + 1)) (\<lambda>rhs j. relational_loop m U toks' j (Cmp (tok_t tok) node rhs))
                 else Return node (i + d))"
        by (simp add: opclass_eq)
      show "window toks toks' d i (relational_loop (Suc n) U toks i node)" by (rule w)
      show "\<not> oof (relational_loop (Suc n) U toks i node)" by (rule o)
      show "n \<le> m \<or> \<not> oof (relational_loop (Suc m) U toks' (i + d) node)" by (rule o')
      show "additive m U toks' (i + d + 1) = shift d (additive n U toks (i + 1))"
        if "window toks toks' d (i + 1) (additive n U toks (i + 1))" "\<not> oof (additive n U toks (i + 1))"
           "n \<le> m \<or> \<not> oof (additive m U toks' (i + d + 1))"
        using ih(6)[of "i + 1" m] that by (simp add: add.commute add.left_commute)
      show "relational_loop m U toks' (j + d) x = shift d (relational_loop n U toks j x)"
        if "window toks toks' d j (relational_loop n U toks j x)" "\<not> oof (relational_loop n U toks j x)"
           "n \<le> m \<or> \<not> oof (relational_loop m U toks' (j + d) x)" for x j
        using ih(5)[OF that] .
      show "i + 1 \<le> pos (additive n U toks (i + 1))" by (rule expr_pos) simp
      show "j \<le> pos (relational_loop n U toks j x)" for x j by (rule expr_pos) simp
    qed
  qed
  have s6: "additive n' U toks' (i + d) = shift d (additive (Suc n) U toks i)"
    if w: "window toks toks' d i (additive (Suc n) U toks i)" and o: "\<not> oof (additive (Suc n) U toks i)"
      and o0: "Suc n \<le> n' \<or> \<not> oof (additive n' U toks' (i + d))" for n' i
  proof -
    obtain m where n': "n' = Suc m" using o0 by (cases n') auto
    have o': "n \<le> m \<or> \<not> oof (additive (Suc m) U toks' (i + d))" using o0 n' by simp
    show ?thesis unfolding n' additive.simps
    proof (rule stable_bind[OF w[unfolded additive.simps] o[unfolded additive.simps] o'[unfolded additive.simps]])
      show "term m U toks' (i + d) = shift d (term n U toks i)"
        if "window toks toks' d i (term n U toks i)" "\<not> oof (term n U toks i)"
           "n \<le> m \<or> \<not> oof (term m U toks' (i + d))"
        using ih(8)[OF that] .
      show "additive_loop m U toks' (j + d) x = shift d (additive_loop n U toks j x)"
        if "window toks toks' d j (additive_loop n U toks j x)" "\<not> oof (additive_loop n U toks j x)"
           "n \<le> m \<or> \<not> oof (additive_loop m U toks' (j + d) x)" for x j
        using ih(7)[OF that] .
      show "i \<le> pos (term n U toks i)" by (rule expr_pos) simp
      show "j \<le> pos (additive_loop n U toks j x)" for x j by (rule expr_pos) simp
    qed
  qed
  have s7: "additive_loop n' U toks' (i + d) node = shift d (additive_loop (Suc n) U toks i node)"
    if w: "window toks toks' d i (additive_loop (Suc n) U toks i node)" and o: "\<not> oof (additive_loop (Suc n) U toks i node)"
      and o0: "Suc n \<le> n' \<or> \<not> oof (additive_loop n' U toks' (i + d) node)" for n' i node
  proof -
    obtain m where n': "n' = Suc m" using o0 by (cases n') auto
    have o': "n \<le> m \<or> \<not> oof (additive_loop (Suc m) U toks' (i + d) node)" using o0 n' by simp
    show ?thesis unfolding n'
    proof (rule stable_loop[where sub = "term n U toks" and sub' = "term m U toks'"
          and loop = "additive_loop n U toks" and loop' = "additive_loop m U toks'" and mk = Bin and q = 3
          and node = node and i = i and d = d and toks = toks and toks' = toks' and P = "n \<le> m"])
      show "additive_loop (Suc n) U toks i node = with_cur toks i (\<lambda>tok. if opclass (tok_t tok) = 3
                 then bind (term n U toks (i + 1)) (\<lambda>rhs j. additive_loop n U toks j (Bin (tok_t tok) node rhs))
                 else Return node i)"
        by (simp add: opclass_eq)
      show "additive_loop (Suc m) U toks' (i + d) node = with_cur toks' (i + d) (\<lambda>tok. if opclass (tok_t tok) = 3
                 then bind (term m U toks' (i + d + 1)) (\<lambda>rhs j. additive_loop m U toks' j (Bin (tok_t tok) node rhs))
                 else Return node (i + d))"
        by (simp add: opclass_eq)
      show "window toks toks' d i (additive_loop (Suc n) U toks i node)" by (rule w)
      show "\<not> oof (additive_loop (Suc n) U toks i node)" by (rule o)
      show "n \<le> m \<or> \<not> oof (additive_loop (Suc m) U toks' (i + d) node)" by (rule o')
      show "term m U toks' (i + d + 1) = shift d (term n U toks (i + 1))"
        if "window toks toks' d (i + 1) (term n U toks (i + 1))" "\<not> oof (term n U toks (i + 1))"
           "n \<le> m \<or> \<not> oof (term m U toks' (i + d + 1))"
        using ih(8)[of "i + 1" m] that by (simp add: add.commute add.left_commute)
      show "additive_loop m U toks' (j + d) x = shift d (additive_loop n U toks j x)"
        if "window toks toks' d j (additive_loop n U toks j x)" "\<not> oof (additive_loop n U toks j x)"
           "n \<le> m \<or> \<not> oof (additive_loop m U toks' (j + d) x)" for x j
        using ih(7)[OF that] .
      show "i + 1 \<le> pos (term n U toks (i + 1))" by (rule expr_pos) simp
      show "j \<le> pos (additive_loop n U toks j x)" for x j by (rule expr_pos) simp
    qed
  qed
  have s8: "term n' U toks' (i + d) = shift d (term (Suc n) U toks i)"
    if w: "window toks toks' d i (term (Suc n) U toks i)" and o: "\<not> oof (term (Suc n) U toks i)"
      and o0: "Suc n \<le> n' \<or> \<not> oof (term n' U toks' (i + d))" for n' i
  proof -
    obtain m where n': "n' = Suc m" using o0 by (cases n') auto
    have o': "n \<le> m \<or> \<not> oof (term (Suc m) U toks' (i + d))" using o0 n' by simp
    show ?thesis unfolding n' "term.simps"
    proof (rule stable_bind[OF w[unfolded "term.simps"] o[unfolded "term.simps"] o'[unfolded "term.simps"]])
      show "factor m U toks' (i + d) = shift d (factor n U toks i)"
        if "window toks toks' d i (factor n U toks i)" "\<not> oof (factor n U toks i)"
           "n \<le> m \<or> \<not> oof (factor m U toks' (i + d))"
        using ih(10)[OF that] .
      show "term_loop m U toks' (j + d) x = shift d (term_loop n U toks j x)"
        if "window toks toks' d j (term_loop n U toks j x)" "\<not> oof (term_loop n U toks j x)"
           "n \<le> m \<or> \<not> oof (term_loop m U toks' (j + d) x)" for x j
        using ih(9)[OF that] .
      show "i \<le> pos (factor n U toks i)" by (rule expr_pos) simp
      show "j \<le> pos (term_loop n U toks j x)" for x j by (rule expr_pos) simp
    qed
  qed
  have s9: "term_loop n' U toks' (i + d) node = shift d (term_loop (Suc n) U toks i node)"
    if w: "window toks toks' d i (term_loop (Suc n) U toks i node)" and o: "\<not> oof (term_loop (Suc n) U toks i node)"
      and o0: "Suc n \<le> n' \<or> \<not> oof (term_loop n' U toks' (i + d) node)" for n' i node
  proof -
    obtain m where n': "n' = Suc m" using o0 by (cases n') auto
    have o': "n \<le> m \<or> \<not> oof (term_loop (Suc m) U toks' (i + d) node)" using o0 n' by simp
    show ?thesis unfolding n'
    proof (rule stable_loop[where sub = "factor n U toks" and sub' = "factor m U toks'"
          and loop = "term_loop n U toks" and loop' = "term_loop m U toks'" and mk = Bin and q = 4
          and node = node and i = i and d = d and toks = toks and toks' = toks' and P = "n \<le> m"])
      show "term_loop (Suc n) U toks i node = with_cur toks i (\<lambda>tok. if opclass (tok_t tok) = 4
                 then bind (factor n U toks (i + 1)) (\<lambda>rhs j. term_loop n U toks j (Bin (tok_t tok) node rhs))
                 else Return node i)"
        by (simp add: opclass_eq)
      show "term_loop (Suc m) U toks' (i + d) node = with_cur toks' (i + d) (\<lambda>tok. if opclass (tok_t tok) = 4
                 then bind (factor m U toks' (i + d + 1)) (\<lambda>rhs j. term_loop m U toks' j (Bin (tok_t tok) node rhs))
                 else Return node (i + d))"
        by (simp add: opclass_eq)
      show "window toks toks' d i (term_loop (Suc n) U toks i node)" by (rule w)
      show "\<not> oof (term_loop (Suc n) U toks i node)" by (rule o)
      show "n \<le> m \<or> \<not> oof (term_loop (Suc m) U toks' (i + d) node)" by (rule o')
      show "factor m U toks' (i + d + 1) = shift d (factor n U toks (i + 1))"
        if "window toks toks' d (i + 1) (factor n U toks (i + 1))" "\<not> oof (factor n U toks (i + 1))"
           "n \<le> m \<or> \<not> oof (factor m U toks' (i + d + 1))"
        using ih(10)[of "i + 1" m] that by (simp add: add.commute add.left_commute)
      show "term_loop m U toks' (j + d) x = shift d (term_loop n U toks j x)"
        if "window toks toks' d j (term_loop n U toks j x)" "\<not> oof (term_loop n U toks j x)"
           "n \<le> m \<or> \<not> oof (term_loop m U toks' (j + d) x)" for x j
        using ih(9)[OF that] .
      show "i + 1 \<le> pos (factor n U toks (i + 1))" by (rule expr_pos) simp
      show "j \<le> pos (term_loop n U toks j x)" for x j by (rule expr_pos) simp
    qed
  qed
  have s10: "factor n' U toks' (i + d) = shift d (factor (Suc n) U toks i)"
    if w: "window toks toks' d i (factor (Suc n) U toks i)" and o: "\<not> oof (factor (Suc n) U toks i)"
      and o0: "Suc n \<le> n' \<or> \<not> oof (factor n' U toks' (i + d))" for n' i
  proof -
    obtain m where n': "n' = Suc m" using o0 by (cases n') auto
    have o': "n \<le> m \<or> \<not> oof (factor (Suc m) U toks' (i + d))" using o0 n' by simp
    show ?thesis unfolding n'
      by (rule stable_factor[OF ih(1) w o o'])
  qed
  show ?case
    by (intro conjI allI impI) (erule (2) s1 s2 s3 s4 s5 s6 s7 s8 s9 s10)+
qed

lemmas expr_stable =
  expr_stable_aux[THEN conjunct1, rule_format]
  expr_stable_aux[THEN conjunct2, THEN conjunct1, rule_format]
  expr_stable_aux[THEN conjunct2, THEN conjunct2, THEN conjunct1, rule_format]
  expr_stable_aux[THEN conjunct2, THEN conjunct2, THEN conjunct2, THEN conjunct1, rule_format]
  expr_stable_aux[THEN conjunct2, THEN conjunct2, THEN conjunct2, THEN conjunct2, THEN conjunct1, rule_format]
  expr_stable_aux[THEN conjunct2, THEN conjunct2, THEN conjunct2, THEN conjunct2, THEN conjunct2, THEN conjunct1, rule_format]
  expr_stable_aux[THEN conjunct2, THEN conjunct2, THEN conjunct2, THEN conjunct2, THEN conjunct2, THEN conjunct2, THEN conjunct1, rule_format]
  expr_stable_aux[THEN conjunct2, THEN conjunct2, THEN conjunct2, THEN conjunct2, THEN conjunct2, THEN conjunct2, THEN conjunct2, THEN conjunct1, rule_format]
  expr_stable_aux[THEN conjunct2, THEN conjunct2, THEN conjunct2, THEN conjunct2, THEN conjunct2, THEN conjunct2, THEN conjunct2, THEN conjunct2, THEN conjunct1, rule_format]
  expr_stable_aux[THEN conjunct2, THEN conjunct2, THEN conjunct2, THEN conjunct2, THEN conjunct2, THEN conjunct2, THEN conjunct2, THEN conjunct2, THEN conjunct2, rule_format]
section \<open>Where an expression ends\<close>

text \<open>
  The loop of a level returns at a token that is no operator of its level, and it starts
  where the level below returned: an expression ends before a token that is no binary
  operator.
\<close>

lemma opclass_le: "opclass k \<le> 4"
  by (cases k) simp_all

lemma bind_Return:
  "bind m F = Return x j \<Longrightarrow> \<exists>y k. m = Return y k \<and> F y k = Return x j"
  by (cases m) simp_all

lemma with_cur_Return:
  "with_cur toks i F = Return x j \<Longrightarrow> \<exists>tok. cur toks i = Inr tok \<and> F tok = Return x j"
  by (cases "cur toks i") (simp_all add: with_cur_def)

lemma cur_la_Some: "cur toks i = Inr tok \<Longrightarrow> la toks i = Some (opclass (tok_t tok))"
  by (auto simp: cur_def la_def split: if_splits)

lemma term_loop_stops:
  "term_loop n U toks i node = Return x j \<Longrightarrow> \<exists>c. la toks j = Some c \<and> c < 4"
proof (induction n arbitrary: i node)
  case 0
  thus ?case by simp
next
  case (Suc n)
  from with_cur_Return[OF Suc.prems[unfolded term_loop.simps]] obtain tok
    where c: "cur toks i = Inr tok"
      and r: "(if tok_t tok = MUL \<or> tok_t tok = DIV
               then bind (factor n U toks (i + 1)) (\<lambda>rhs j. term_loop n U toks j (Bin (tok_t tok) node rhs))
               else Return node i) = Return x j"
    by blast
  show ?case
  proof (cases "opclass (tok_t tok) = 4")
    case True
    hence "bind (factor n U toks (i + 1)) (\<lambda>rhs j. term_loop n U toks j (Bin (tok_t tok) node rhs)) = Return x j"
      using r by (simp add: opclass_eq)
    from bind_Return[OF this] obtain rhs k where "term_loop n U toks k (Bin (tok_t tok) node rhs) = Return x j"
      by blast
    thus ?thesis by (rule Suc.IH)
  next
    case False
    hence "j = i" using r by (simp add: opclass_eq)
    moreover have "opclass (tok_t tok) < 4" using False opclass_le[of "tok_t tok"] by simp
    ultimately show ?thesis using cur_la_Some[OF c] by simp
  qed
qed

lemma term_stops:
  "term n U toks i = Return x j \<Longrightarrow> \<exists>c. la toks j = Some c \<and> c < 4"
proof (cases n)
  case 0
  assume "term n U toks i = Return x j"
  thus ?thesis using 0 by simp
next
  case (Suc m)
  assume "term n U toks i = Return x j"
  from bind_Return[OF this[unfolded Suc "term.simps"]] show ?thesis
    using term_loop_stops by blast
qed


lemma additive_loop_stops:
  "additive_loop n U toks i node = Return x j \<Longrightarrow> \<exists>c. la toks i = Some c \<and> c < 4
     \<Longrightarrow> \<exists>c. la toks j = Some c \<and> c < 3"
proof (induction n arbitrary: i node)
  case 0
  thus ?case by simp
next
  case (Suc n)
  from with_cur_Return[OF Suc.prems(1)[unfolded additive_loop.simps]] obtain tok
    where c: "cur toks i = Inr tok"
      and r: "(if tok_t tok = PLUS \<or> tok_t tok = MINUS
               then bind (term n U toks (i + 1)) (\<lambda>rhs j. additive_loop n U toks j (Bin (tok_t tok) node rhs))
               else Return node i) = Return x j"
    by blast
  show ?case
  proof (cases "opclass (tok_t tok) = 3")
    case True
    hence "bind (term n U toks (i + 1)) (\<lambda>rhs j. additive_loop n U toks j (Bin (tok_t tok) node rhs)) = Return x j"
      using r by (simp add: opclass_eq)
    from bind_Return[OF this] obtain rhs k where s: "term n U toks (i + 1) = Return rhs k"
      and l: "additive_loop n U toks k (Bin (tok_t tok) node rhs) = Return x j"
      by blast
    from l term_stops[OF s] show ?thesis by (rule Suc.IH)
  next
    case False
    hence "j = i" using r by (simp add: opclass_eq)
    moreover have "opclass (tok_t tok) < 3" using False Suc.prems(2) cur_la_Some[OF c] by simp
    ultimately show ?thesis using cur_la_Some[OF c] by simp
  qed
qed

lemma additive_stops:
  "additive n U toks i = Return x j \<Longrightarrow> \<exists>c. la toks j = Some c \<and> c < 3"
proof (cases n)
  case 0
  assume "additive n U toks i = Return x j"
  thus ?thesis using 0 by simp
next
  case (Suc m)
  assume "additive n U toks i = Return x j"
  from bind_Return[OF this[unfolded Suc additive.simps]] obtain y k
    where s: "term m U toks i = Return y k" and l: "additive_loop m U toks k y = Return x j"
    by blast
  from l term_stops[OF s] show ?thesis by (rule additive_loop_stops)
qed

lemma relational_loop_stops:
  "relational_loop n U toks i node = Return x j \<Longrightarrow> \<exists>c. la toks i = Some c \<and> c < 3
     \<Longrightarrow> \<exists>c. la toks j = Some c \<and> c < 2"
proof (induction n arbitrary: i node)
  case 0
  thus ?case by simp
next
  case (Suc n)
  from with_cur_Return[OF Suc.prems(1)[unfolded relational_loop.simps]] obtain tok
    where c: "cur toks i = Inr tok"
      and r: "(if tok_t tok = LT \<or> tok_t tok = GT \<or> tok_t tok = LE \<or> tok_t tok = GE
               then bind (additive n U toks (i + 1)) (\<lambda>rhs j. relational_loop n U toks j (Cmp (tok_t tok) node rhs))
               else Return node i) = Return x j"
    by blast
  show ?case
  proof (cases "opclass (tok_t tok) = 2")
    case True
    hence "bind (additive n U toks (i + 1)) (\<lambda>rhs j. relational_loop n U toks j (Cmp (tok_t tok) node rhs)) = Return x j"
      using r by (simp add: opclass_eq)
    from bind_Return[OF this] obtain rhs k where s: "additive n U toks (i + 1) = Return rhs k"
      and l: "relational_loop n U toks k (Cmp (tok_t tok) node rhs) = Return x j"
      by blast
    from l additive_stops[OF s] show ?thesis by (rule Suc.IH)
  next
    case False
    hence "j = i" using r by (simp add: opclass_eq)
    moreover have "opclass (tok_t tok) < 2" using False Suc.prems(2) cur_la_Some[OF c] by simp
    ultimately show ?thesis using cur_la_Some[OF c] by simp
  qed
qed

lemma relational_stops:
  "relational n U toks i = Return x j \<Longrightarrow> \<exists>c. la toks j = Some c \<and> c < 2"
proof (cases n)
  case 0
  assume "relational n U toks i = Return x j"
  thus ?thesis using 0 by simp
next
  case (Suc m)
  assume "relational n U toks i = Return x j"
  from bind_Return[OF this[unfolded Suc relational.simps]] obtain y k
    where s: "additive m U toks i = Return y k" and l: "relational_loop m U toks k y = Return x j"
    by blast
  from l additive_stops[OF s] show ?thesis by (rule relational_loop_stops)
qed

lemma equality_loop_stops:
  "equality_loop n U toks i node = Return x j \<Longrightarrow> \<exists>c. la toks i = Some c \<and> c < 2
     \<Longrightarrow> \<exists>c. la toks j = Some c \<and> c < 1"
proof (induction n arbitrary: i node)
  case 0
  thus ?case by simp
next
  case (Suc n)
  from with_cur_Return[OF Suc.prems(1)[unfolded equality_loop.simps]] obtain tok
    where c: "cur toks i = Inr tok"
      and r: "(if tok_t tok = EQEQ \<or> tok_t tok = NE
               then bind (relational n U toks (i + 1)) (\<lambda>rhs j. equality_loop n U toks j (Cmp (tok_t tok) node rhs))
               else Return node i) = Return x j"
    by blast
  show ?case
  proof (cases "opclass (tok_t tok) = 1")
    case True
    hence "bind (relational n U toks (i + 1)) (\<lambda>rhs j. equality_loop n U toks j (Cmp (tok_t tok) node rhs)) = Return x j"
      using r by (simp add: opclass_eq)
    from bind_Return[OF this] obtain rhs k where s: "relational n U toks (i + 1) = Return rhs k"
      and l: "equality_loop n U toks k (Cmp (tok_t tok) node rhs) = Return x j"
      by blast
    from l relational_stops[OF s] show ?thesis by (rule Suc.IH)
  next
    case False
    hence "j = i" using r by (simp add: opclass_eq)
    moreover have "opclass (tok_t tok) < 1" using False Suc.prems(2) cur_la_Some[OF c] by simp
    ultimately show ?thesis using cur_la_Some[OF c] by simp
  qed
qed

lemma equality_stops:
  "equality n U toks i = Return x j \<Longrightarrow> \<exists>c. la toks j = Some c \<and> c < 1"
proof (cases n)
  case 0
  assume "equality n U toks i = Return x j"
  thus ?thesis using 0 by simp
next
  case (Suc m)
  assume "equality n U toks i = Return x j"
  from bind_Return[OF this[unfolded Suc equality.simps]] obtain y k
    where s: "relational m U toks i = Return y k" and l: "equality_loop m U toks k y = Return x j"
    by blast
  from l relational_stops[OF s] show ?thesis by (rule equality_loop_stops)
qed

text \<open>An expression ends before a token that is no binary operator.\<close>

lemma expr_stops:
  "expr n U toks i = Return x j \<Longrightarrow> \<exists>tok. cur toks j = Inr tok \<and> opclass (tok_t tok) = 0"
proof (cases n)
  case 0
  assume "expr n U toks i = Return x j"
  thus ?thesis using 0 by simp
next
  case (Suc m)
  assume "expr n U toks i = Return x j"
  hence "equality m U toks i = Return x j" using Suc by simp
  from equality_stops[OF this] show ?thesis
    by (auto simp: la_def cur_def split: if_splits)
qed

section \<open>Parentheses\<close>

text \<open>The lexer on a text that goes on with a character that no match before it can take in.\<close>

lemma re_lit_cut1: "length l = 1 \<Longrightarrow> r \<noteq> [] \<Longrightarrow> re_lit l (r @ c # t) = re_lit l r"
  by (cases r) (simp_all add: re_lit_def)

lemma re_lit_cut2:
  assumes "str l = [x, y]" "y \<noteq> c" "r \<noteq> []"
  shows "re_lit l (r @ c # t) = re_lit l r"
proof -
  have l: "length l = 2" using assms(1) by (simp add: str_def) (metis length_map length_Cons list.size(3) numeral_2_eq_2)
  obtain a r' where r: "r = a # r'" using assms(3) by (cases r) auto
  show ?thesis
  proof (cases r')
    case Nil
    thus ?thesis using assms(1,2) r l by (simp add: re_lit_def)
  next
    case (Cons b r'')
    thus ?thesis using r l by (simp add: re_lit_def)
  qed
qed

lemma TOKEN_REGEX_sep:
  assumes "\<not> is_decimal U c" "\<not> is_word U c" "\<not> is_ws c" "c \<noteq> 61" "r \<noteq> []"
  shows "TOKEN_REGEX U (r @ c # t) = TOKEN_REGEX U r"
  unfolding TOKEN_REGEX_def
  using assms
  by (intro alternation_cong)
     (auto simp: TOK_def re_plus_cut re_one_star_cut re_lit_cut1
        re_lit_cut2[of _ 60 61] re_lit_cut2[of _ 62 61] re_lit_cut2[of _ 61 61] re_lit_cut2[of _ 33 61] str_def)

lemma finditer_sep:
  assumes "\<not> is_decimal U c" "\<not> is_word U c" "\<not> is_ws c" "c \<noteq> 61"
  shows "finditer U (r @ c # t) = finditer U r @ finditer U (c # t)"
  using assms
proof (induction U r rule: finditer.induct)
  case (1 U)
  show ?case by simp
next
  case (2 U a r)
  note sep = TOKEN_REGEX_sep[OF 2(3-6), of "a # r" t]
  show ?case
  proof (cases "TOKEN_REGEX U (a # r)")
    case None
    hence "TOKEN_REGEX U ((a # r) @ c # t) = None" using sep by simp
    thus ?thesis using None 2(1)[OF None 2(3-6)] by simp
  next
    case (Some kn)
    obtain k n where kn: "kn = (k, n)" by (cases kn)
    have s: "TOKEN_REGEX U ((a # r) @ c # t) = Some (k, n)" using sep Some kn by simp
    have n: "n \<le> length (a # r)" using Some kn TOKEN_REGEX_bound by blast
    have ih: "finditer U (drop n (a # r) @ c # t) = finditer U (drop n (a # r)) @ finditer U (c # t)"
      using 2(2)[OF Some kn[symmetric] 2(3-6)] .
    have "finditer U ((a # r) @ c # t) = (k, take n ((a # r) @ c # t)) # finditer U (drop n ((a # r) @ c # t))"
      using s by simp
    also have "\<dots> = (k, take n (a # r)) # finditer U (drop n (a # r) @ c # t)"
      using take_drop_cut[OF n, of "c # t"] by simp
    finally show ?thesis using ih Some kn by simp
  qed
qed

lemma finditer_LP: "finditer U (40 # s) = (LP, [40]) # finditer U s"
  by (simp add: lex_eval)

lemma finditer_RP: "finditer U (41 # s) = (RP, [41]) # finditer U s"
  by (simp add: lex_eval)

lemma finditer_LPs: "finditer U (replicate k 40 @ s) = replicate k (LP, [40]) @ finditer U s"
  by (induction k) (simp_all add: finditer_LP del: finditer.simps)

lemma finditer_RPs: "finditer U (s @ replicate k 41) = finditer U s @ replicate k (RP, [41])"
proof (induction k arbitrary: s)
  case 0
  show ?case by simp
next
  case (Suc k)
  have "finditer U (s @ 41 # replicate k 41) = finditer U s @ finditer U (41 # replicate k 41)"
    by (rule finditer_sep) (simp_all add: is_decimal_def decimal_value_def is_word_def is_ws_def)
  also have "finditer U (41 # replicate k 41) = (RP, [41]) # finditer U ([] @ replicate k 41)"
    by (simp add: finditer_RP del: finditer.simps)
  also have "finditer U ([] @ replicate k 41) = finditer U [] @ replicate k (RP, [41])"
    by (rule Suc.IH)
  finally show ?case by simp
qed

lemma lex_out_replicate:
  "t \<noteq> WS \<Longrightarrow> t \<noteq> ID \<Longrightarrow> lex_out (replicate k (t, v)) = replicate k (Token t v)"
  by (induction k) simp_all

text \<open>The tokens of a text between \<open>k\<close> pairs of parentheses.\<close>

lemma lex_parens:
  "lex U (replicate k 40 @ s @ replicate k 41) =
     replicate k (Token LP [40]) @ lex_out (finditer U s) @ replicate k (Token RP [41]) @ [Token EOF []]"
  by (simp add: lex_def finditer_LPs finditer_RPs lex_out_append lex_out_replicate)


text \<open>The parser on the tokens of an expression between parentheses.\<close>

lemma window_refl: "window toks toks 0 i r"
  by (cases r) (simp_all add: window_def)

lemma factor_parens:
  assumes "cur toks i = Inr lp" "tok_t lp = LP" "expr n U toks (i + 1) = Return e j"
    "cur toks j = Inr rp" "tok_t rp = RP"
  shows "factor (Suc n) U toks i = Return e (j + 1)"
  using assms by (simp add: with_cur_def eat_def)

lemma loop_exit:
  assumes "cur toks j = Inr tok" "opclass (tok_t tok) = 0"
  shows "term_loop (Suc n) U toks j e = Return e j"
    "additive_loop (Suc n) U toks j e = Return e j"
    "relational_loop (Suc n) U toks j e = Return e j"
    "equality_loop (Suc n) U toks j e = Return e j"
  using assms by (simp_all add: with_cur_def opclass_eq)

lemma factor_expr:
  assumes f: "factor (Suc m) U toks i = Return e j"
    and c: "cur toks j = Inr tok" and z: "opclass (tok_t tok) = 0"
  shows "expr (Suc m + 5) U toks i = Return e j"
proof -
  have "term (Suc (Suc m)) U toks i = Return e j"
    using f loop_exit(1)[OF c z] by simp
  hence "additive (Suc (Suc (Suc m))) U toks i = Return e j"
    using loop_exit(2)[OF c z] by simp
  hence "relational (Suc (Suc (Suc (Suc m)))) U toks i = Return e j"
    using loop_exit(3)[OF c z] by simp
  hence "equality (Suc (Suc (Suc (Suc (Suc m))))) U toks i = Return e j"
    using loop_exit(4)[OF c z] by simp
  hence "expr (Suc (Suc (Suc (Suc (Suc (Suc m)))))) U toks i = Return e j"
    by simp
  thus ?thesis by (simp add: eval_nat_numeral)
qed

lemma cur_append: "cur (pre @ toks) (k + length pre) = cur toks k"
  by (simp add: cur_def nth_append)

lemma cur_Cons: "cur (t # toks) (k + 1) = cur toks k"
  by (simp add: cur_def)

lemma cur_here: "cur (ts @ t # rest) (length ts) = Inr t"
  by (simp add: cur_def)

lemma cur_in: "k < length ts \<Longrightarrow> cur (ts @ rest) k = Inr (ts ! k)"
  by (simp add: cur_def nth_append)

text \<open>The tokens of an expression between parentheses, anywhere in a token list.\<close>

lemma expr_in_parens:
  assumes h: "expr n U (ts @ t # rest) 0 = Return e (length ts)"
    and rp: "tok_t rp = RP" and m: "n \<le> m"
  shows "expr m U (pre @ lp # ts @ rp # rest') (length pre + 1) = Return e (length pre + 1 + length ts)"
proof -
  let ?toks = "ts @ t # rest" and ?toks' = "pre @ lp # ts @ rp # rest'"
  let ?d = "length pre + 1"
  from expr_stops[OF h] have t: "opclass (tok_t t) = 0" by (simp add: cur_here)
  have 1: "cur ?toks' (k + ?d) = cur ?toks k" if "k < length ts" for k
  proof -
    have "cur ?toks' (k + ?d) = cur (ts @ rp # rest') k"
      using cur_append[of pre "lp # ts @ rp # rest'" "k + 1"] cur_Cons[of lp "ts @ rp # rest'" k]
      by (simp add: add.commute add.left_commute)
    thus ?thesis using that by (simp add: cur_in)
  qed
  have "cur ?toks' (length ts + ?d) = cur (ts @ rp # rest') (length ts)"
    using cur_append[of pre "lp # ts @ rp # rest'" "length ts + 1"] cur_Cons[of lp "ts @ rp # rest'" "length ts"]
    by (simp add: add.commute add.left_commute)
  hence "cur ?toks' (length ts + ?d) = Inr rp" by (simp add: cur_here)
  hence 2: "la ?toks' (length ts + ?d) = la ?toks (length ts)"
    using t rp cur_la_Some[of ?toks' "length ts + ?d" rp] cur_la_Some[OF cur_here, of ts t rest]
    by simp
  have w: "window ?toks ?toks' ?d 0 (expr n U ?toks 0)"
    unfolding h using 1 2 by (simp add: window_def)
  have "expr m U ?toks' (0 + ?d) = shift ?d (expr n U ?toks 0)"
    by (rule expr_stable(1)[OF w]) (simp_all add: h m)
  thus ?thesis by (simp add: h add.commute add.left_commute)
qed

lemma factor_in_parens:
  assumes h: "expr n U (ts @ t # rest) 0 = Return e (length ts)"
    and lp: "tok_t lp = LP" and rp: "tok_t rp = RP"
  shows "factor (Suc n + 6 * k) U (pre @ replicate (Suc k) lp @ ts @ replicate (Suc k) rp @ rest') (length pre)
           = Return e (length pre + length ts + 2 * Suc k)"
proof (induction k arbitrary: pre rest')
  case 0
  have "expr n U (pre @ lp # ts @ rp # rest') (length pre + 1) = Return e (length pre + 1 + length ts)"
    by (rule expr_in_parens[OF h rp]) simp
  moreover have "cur (pre @ lp # ts @ rp # rest') (length pre) = Inr lp" by (rule cur_here)
  moreover have "cur (pre @ lp # ts @ rp # rest') (length pre + 1 + length ts) = Inr rp"
    using cur_here[of "pre @ lp # ts" rp rest'] by simp
  ultimately have "factor (Suc n) U (pre @ lp # ts @ rp # rest') (length pre) = Return e (length pre + 1 + length ts + 1)"
    using lp rp by (intro factor_parens)
  thus ?case by simp
next
  case (Suc k)
  let ?toks = "pre @ replicate (Suc (Suc k)) lp @ ts @ replicate (Suc (Suc k)) rp @ rest'"
  have e: "?toks = (pre @ [lp]) @ replicate (Suc k) lp @ ts @ replicate (Suc k) rp @ (rp # rest')"
    by (simp add: replicate_append_same)
  have f: "factor (Suc n + 6 * k) U ?toks (length pre + 1) = Return e (length pre + 1 + length ts + 2 * Suc k)"
    using Suc.IH[of "pre @ [lp]" "rp # rest'"] unfolding e by simp
  define X where "X = (pre @ [lp]) @ replicate (Suc k) lp @ ts @ replicate (Suc k) rp"
  have ex: "?toks = X @ rp # rest'" by (simp add: X_def replicate_append_same)
  have lx: "length X = length pre + 1 + length ts + 2 * Suc k" by (simp add: X_def)
  have r: "cur ?toks (length pre + 1 + length ts + 2 * Suc k) = Inr rp"
    unfolding ex lx[symmetric] by (rule cur_here)
  have "expr (Suc (n + 6 * k) + 5) U ?toks (length pre + 1) = Return e (length pre + 1 + length ts + 2 * Suc k)"
    by (rule factor_expr[OF _ r]) (use f rp in simp_all)
  moreover have "cur ?toks (length pre) = Inr lp"
    using cur_here[of pre lp "replicate (Suc k) lp @ ts @ replicate (Suc (Suc k)) rp @ rest'"] by simp
  ultimately have "factor (Suc (Suc (n + 6 * k) + 5)) U ?toks (length pre)
      = Return e (length pre + 1 + length ts + 2 * Suc k + 1)"
    using lp rp r by (intro factor_parens)
  thus ?case by (simp add: eval_nat_numeral)
qed

text \<open>
  C10: if the tokens \<open>ts\<close>, followed by any token, are parsed as an expression with the
  tree \<open>e\<close>, then wherever the tokens \<open>ts\<close> stand between one or more pairs of
  parentheses, \<^verbatim>\<open>factor\<close> at the first parenthesis returns the same tree \<open>e\<close>, with
  no node for the parentheses, after the last one, whatever the fuel above a bound; so it is
  for a source text \<open>s\<close> and the text \<open>s\<close> between parentheses. The tree being the same,
  the generator emits the same instructions. \<^verbatim>\<open>factor\<close> at a left parenthesis returns
  the tree that \<^verbatim>\<open>expr\<close> returns after it, when a right parenthesis follows.
\<close>

theorem C10_parens_identity:
  "(expr n U (ts @ t # rest) 0 = Return e (length ts) \<and> tok_t lp = LP \<and> tok_t rp = RP
      \<and> Suc n + 6 * k \<le> m \<longrightarrow>
      factor m U (pre @ replicate (Suc k) lp @ ts @ replicate (Suc k) rp @ rest') (length pre)
        = Return e (length pre + length ts + 2 * Suc k))
   \<and> (expr n U (lex U s) 0 = Return e (length (lex U s) - 1) \<and> Suc n + 6 * k \<le> m \<longrightarrow>
      factor m U (lex U (replicate (Suc k) (of_char CHR ''('') @ s @ replicate (Suc k) (of_char CHR '')''))) 0
        = Return e (length (lex U s) - 1 + 2 * Suc k))
   \<and> (cur toks i = Inr lp \<and> tok_t lp = LP \<and> expr n U toks (i + 1) = Return e j
      \<and> cur toks j = Inr rp \<and> tok_t rp = RP \<longrightarrow>
      factor (Suc n) U toks i = Return e (j + 1))"
proof (intro conjI impI)
  assume a: "expr n U (ts @ t # rest) 0 = Return e (length ts) \<and> tok_t lp = LP \<and> tok_t rp = RP
      \<and> Suc n + 6 * k \<le> m"
  let ?toks = "pre @ replicate (Suc k) lp @ ts @ replicate (Suc k) rp @ rest'"
  from a have h: "expr n U (ts @ t # rest) 0 = Return e (length ts)"
    and lp: "tok_t lp = LP" and rp: "tok_t rp = RP" by simp_all
  have f: "factor (Suc n + 6 * k) U ?toks (length pre) = Return e (length pre + length ts + 2 * Suc k)"
    by (rule factor_in_parens[OF h lp rp])
  have "factor m U ?toks (length pre + 0) = shift 0 (factor (Suc n + 6 * k) U ?toks (length pre))"
    by (rule expr_stable(10)[OF window_refl]) (use a f in simp_all)
  thus "factor m U ?toks (length pre) = Return e (length pre + length ts + 2 * Suc k)"
    using f by simp
next
  assume a: "expr n U (lex U s) 0 = Return e (length (lex U s) - 1) \<and> Suc n + 6 * k \<le> m"
  let ?ts = "lex_out (finditer U s)"
  let ?toks = "[] @ replicate (Suc k) (Token LP [40]) @ ?ts @ replicate (Suc k) (Token RP [41]) @ [Token EOF []]"
  have l: "lex U (replicate (Suc k) (of_char CHR ''('') @ s @ replicate (Suc k) (of_char CHR '')'')) = ?toks"
    using lex_parens[of U "Suc k" s] by simp
  from a have h: "expr n U (?ts @ Token EOF [] # []) 0 = Return e (length ?ts)"
    by (simp add: lex_def)
  have f: "factor (Suc n + 6 * k) U ?toks (length ([] :: token list))
      = Return e (length ([] :: token list) + length ?ts + 2 * Suc k)"
    by (rule factor_in_parens[OF h]) simp_all
  have "factor m U ?toks (0 + 0) = shift 0 (factor (Suc n + 6 * k) U ?toks 0)"
    by (rule expr_stable(10)[OF window_refl]) (use a f in simp_all)
  hence "factor m U ?toks 0 = Return e (length ?ts + 2 * Suc k)"
    using f by simp
  thus "factor m U (lex U (replicate (Suc k) (of_char CHR ''('') @ s @ replicate (Suc k) (of_char CHR '')''))) 0
        = Return e (length (lex U s) - 1 + 2 * Suc k)"
    unfolding l by (simp add: lex_def)
next
  assume "cur toks i = Inr lp \<and> tok_t lp = LP \<and> expr n U toks (i + 1) = Return e j
      \<and> cur toks j = Inr rp \<and> tok_t rp = RP"
  hence "cur toks i = Inr lp" "tok_t lp = LP" "expr n U toks (i + 1) = Return e j"
    "cur toks j = Inr rp" "tok_t rp = RP" by simp_all
  thus "factor (Suc n) U toks i = Return e (j + 1)"
    by (rule factor_parens)
qed

text \<open>
  The text \<^verbatim>\<open>1 + x\<close> and the text \<^verbatim>\<open>((1 + x))\<close>, and the programs that print them.
\<close>

theorem C10_parens_identity_witness:
  "expr 10 ascii_interp (lex ascii_interp (str ''1 + x'')) 0
     = Return (Bin PLUS (IntE 1) (Var (str ''x''))) 3
   \<and> factor 17 ascii_interp (lex ascii_interp (str ''((1 + x))'')) 0
     = Return (Bin PLUS (IntE 1) (Var (str ''x''))) 7
   \<and> parse ascii_interp (str ''print ((1 + x));'')
     = Return (Program [Print (Bin PLUS (IntE 1) (Var (str ''x'')))]) 9
   \<and> parse ascii_interp (str ''print 1 + x;'')
     = Return (Program [Print (Bin PLUS (IntE 1) (Var (str ''x'')))]) 5
   \<and> compile_to_jasmin ascii_interp (str ''print ((1 + x));'') (str ''Main'')
     = compile_to_jasmin ascii_interp (str ''print 1 + x;'') (str ''Main'')"
proof -
  have l: "lex ascii_interp (str ''1 + x'') =
      [Token INT' (str ''1''), Token PLUS (str ''+''), Token ID (str ''x''), Token EOF []]"
    by (simp add: ascii_interp_def lex_eval)
  have e: "expr 10 ascii_interp (lex ascii_interp (str ''1 + x'')) 0
     = Return (Bin PLUS (IntE 1) (Var (str ''x''))) 3"
    unfolding l by (auto simp add: ascii_interp_def parse_eval str_def)
  have s: "replicate (Suc 1) (of_char CHR ''('') @ str ''1 + x'' @ replicate (Suc 1) (of_char CHR '')'')
      = str ''((1 + x))''"
    by (simp add: str_def)
  have "factor 17 ascii_interp
      (lex ascii_interp (replicate (Suc 1) (of_char CHR ''('') @ str ''1 + x'' @ replicate (Suc 1) (of_char CHR '')''))) 0
     = Return (Bin PLUS (IntE 1) (Var (str ''x''))) (length (lex ascii_interp (str ''1 + x'')) - 1 + 2 * Suc 1)"
    using C10_parens_identity[where n = 10 and U = ascii_interp and s = "str ''1 + x''" and k = 1
        and m = 17 and e = "Bin PLUS (IntE 1) (Var (str ''x''))"] e
    by (simp add: l)
  hence f: "factor 17 ascii_interp (lex ascii_interp (str ''((1 + x))'')) 0
     = Return (Bin PLUS (IntE 1) (Var (str ''x''))) 7"
    unfolding s by (simp add: l)
  have l1: "lex ascii_interp (str ''print ((1 + x));'') =
      [Token PRINT (str ''print''), Token LP (str ''(''), Token LP (str ''(''), Token INT' (str ''1''),
       Token PLUS (str ''+''), Token ID (str ''x''), Token RP (str '')''), Token RP (str '')''),
       Token SEMIC (str '';''), Token EOF []]"
    by (simp add: ascii_interp_def lex_eval)
  have p1: "parse ascii_interp (str ''print ((1 + x));'')
     = Return (Program [Print (Bin PLUS (IntE 1) (Var (str ''x'')))]) 9"
    unfolding parse_def l1 by (auto simp add: ascii_interp_def program_def parse_eval str_def)
  have l2: "lex ascii_interp (str ''print 1 + x;'') =
      [Token PRINT (str ''print''), Token INT' (str ''1''),
       Token PLUS (str ''+''), Token ID (str ''x''), Token SEMIC (str '';''), Token EOF []]"
    by (simp add: ascii_interp_def lex_eval)
  have p2: "parse ascii_interp (str ''print 1 + x;'')
     = Return (Program [Print (Bin PLUS (IntE 1) (Var (str ''x'')))]) 5"
    unfolding parse_def l2 by (auto simp add: ascii_interp_def program_def parse_eval str_def)
  from e f p1 p2 show ?thesis by (simp add: compile_to_jasmin_def)
qed

end
